theory Spec2Isabelle
  imports Main "HOL-Library.List_Lexorder" "HOL-Library.Sublist" "HOL-Library.AList"
begin

section \<open>Python strings\<close>

text \<open>
  A Python \<open>str\<close> is a sequence of Unicode code points; it is modelled as a list of
  natural numbers. Comparison of two strings (\<open>sorted\<close>) is the lexicographic order on
  code points, which is the order of \<open>HOL-Library.List_Lexorder\<close>.
  ASCII literals are written \<open>ascii ''...''\<close>.
\<close>

type_synonym pystr = "nat list"

abbreviation ord :: "char \<Rightarrow> nat" where
  "ord \<equiv> of_char"

abbreviation ascii :: "string \<Rightarrow> pystr" where
  "ascii \<equiv> map of_char"

text \<open>The characters \<open>str.strip()\<close> removes: those for which \<open>str.isspace\<close> holds.\<close>

definition isspace :: "nat \<Rightarrow> bool" where
  "isspace c \<longleftrightarrow>
     (9 \<le> c \<and> c \<le> 13) \<or> (28 \<le> c \<and> c \<le> 32) \<or> c = 133 \<or> c = 160 \<or> c = 5760 \<or>
     (8192 \<le> c \<and> c \<le> 8202) \<or> c = 8232 \<or> c = 8233 \<or> c = 8239 \<or> c = 8287 \<or> c = 12288"

text \<open>The line boundaries of \<open>str.splitlines()\<close>.\<close>

definition islinebreak :: "nat \<Rightarrow> bool" where
  "islinebreak c \<longleftrightarrow>
     (10 \<le> c \<and> c \<le> 13) \<or> (28 \<le> c \<and> c \<le> 30) \<or> c = 133 \<or> c = 8232 \<or> c = 8233"

text \<open>\<open>s.strip()\<close> and \<open>s.strip(chars)\<close>.\<close>

definition strip_where :: "(nat \<Rightarrow> bool) \<Rightarrow> pystr \<Rightarrow> pystr" where
  "strip_where P s = rev (dropWhile P (rev (dropWhile P s)))"

definition strip :: "pystr \<Rightarrow> pystr" where
  "strip s = strip_where isspace s"

definition strip_chars :: "pystr \<Rightarrow> pystr \<Rightarrow> pystr" where
  "strip_chars chars s = strip_where (\<lambda>c. c \<in> set chars) s"

text \<open>\<open>s.startswith(p)\<close> and \<open>s.endswith(p)\<close>.\<close>

definition startswith :: "pystr \<Rightarrow> pystr \<Rightarrow> bool" where
  "startswith s p \<longleftrightarrow> take (length p) s = p"

definition endswith :: "pystr \<Rightarrow> pystr \<Rightarrow> bool" where
  "endswith s p \<longleftrightarrow> startswith (rev s) (rev p)"

text \<open>\<open>s.count(c)\<close> for a one-character string \<open>c\<close>, as a Python integer.\<close>

definition count :: "pystr \<Rightarrow> char \<Rightarrow> int" where
  "count s c = int (count_list s (ord c))"

text \<open>
  \<open>s.splitlines()\<close>: the lines of \<open>s\<close> without their terminators; \<open>\r\n\<close> is one
  terminator, and a terminator at the very end opens no further line.
\<close>

fun splitlines_from :: "pystr \<Rightarrow> pystr \<Rightarrow> pystr list" where
  "splitlines_from cur [] = (if cur = [] then [] else [cur])"
| "splitlines_from cur [c] = (if islinebreak c then [cur] else [cur @ [c]])"
| "splitlines_from cur (c # d # cs) =
     (if c = 13 \<and> d = 10 then cur # splitlines_from [] cs
      else if islinebreak c then cur # splitlines_from [] (d # cs)
      else splitlines_from (cur @ [c]) (d # cs))"

definition splitlines :: "pystr \<Rightarrow> pystr list" where
  "splitlines s = splitlines_from [] s"

text \<open>\<open>s.split(sep)\<close> for a one-character separator: always at least one piece.\<close>

fun split_from :: "nat \<Rightarrow> pystr \<Rightarrow> pystr \<Rightarrow> pystr list" where
  "split_from sep cur [] = [cur]"
| "split_from sep cur (c # cs) =
     (if c = sep then cur # split_from sep [] cs else split_from sep (cur @ [c]) cs)"

definition split :: "pystr \<Rightarrow> char \<Rightarrow> pystr list" where
  "split s sep = split_from (ord sep) [] s"

text \<open>
  \<open>s.split(sep, 1)\<close> where \<open>sep\<close> occurs in \<open>s\<close>: the text before the first separator
  and the text after it.
\<close>

definition split1 :: "pystr \<Rightarrow> char \<Rightarrow> pystr \<times> pystr" where
  "split1 s sep = (takeWhile (\<lambda>c. c \<noteq> ord sep) s, tl (dropWhile (\<lambda>c. c \<noteq> ord sep) s))"


section \<open>The conflict-file parser\<close>

text \<open>
  The inner loop of \<open>_parse_event_modifiers_content\<close>:
  \<^verbatim>\<open>while depth > 0 and i + 1 < len(lines)\<close>. The third argument holds the lines after
  index \<open>i\<close>; the result is the extended value and the lines that are left.
\<close>

fun consume :: "int \<Rightarrow> pystr \<Rightarrow> pystr list \<Rightarrow> pystr \<times> pystr list" where
  "consume depth val [] = (val, [])"
| "consume depth val (next_line # ls) =
     (if depth > 0
      then consume (depth + (count next_line CHR ''{'' - count next_line CHR ''}''))
             (val @ 10 # next_line) ls
      else (val, next_line # ls))"

lemma consume_length: "length (snd (consume depth val ls)) \<le> length ls"
  by (induction ls arbitrary: depth val) (auto intro: le_SucI)

text \<open>
  The outer loop: the first argument holds the lines from index \<open>i\<close> on, the second the
  pairs collected so far.
\<close>

function parse_loop :: "pystr list \<Rightarrow> (pystr \<times> pystr) list \<Rightarrow> (pystr \<times> pystr) list" where
  "parse_loop [] pairs = pairs"
| "parse_loop (line # rest) pairs =
     (let s = strip line in
      if s = [] \<or> startswith s (ascii ''#'') then parse_loop rest pairs
      else if ord CHR ''='' \<notin> set s then parse_loop rest pairs
      else
        let key = strip (fst (split1 s CHR ''=''));
            val = strip (snd (split1 s CHR ''=''))
        in if ord CHR ''{'' \<in> set val
           then
             let r = consume (count val CHR ''{'' - count val CHR ''}'') val rest
             in parse_loop (snd r) (pairs @ [(key, strip (fst r))])
           else parse_loop rest (pairs @ [(key, val)]))"
  by pat_completeness auto
termination
  by (relation "measure (\<lambda>(ls, pairs). length ls)") (auto simp: consume_length le_imp_less_Suc)

definition parse_event_modifiers_content :: "pystr \<Rightarrow> (pystr \<times> pystr) list" where
  "parse_event_modifiers_content content = parse_loop (splitlines content) []"


subsection \<open>What the parser is specified against\<close>

text \<open>
  The brace balance of a block of lines (opening minus closing braces), and the text a
  block of raw lines adds to a value when each line is appended after a newline.
\<close>

definition balance :: "pystr list \<Rightarrow> int" where
  "balance ls = (\<Sum>l\<leftarrow>ls. count l CHR ''{'' - count l CHR ''}'')"

definition joined :: "pystr list \<Rightarrow> pystr" where
  "joined ls = concat (map (\<lambda>l. 10 # l) ls)"


section \<open>The launcher's state\<close>

text \<open>
  Of the window object the merge pipeline reads \<open>self.mod_files\<close> (one dictionary per
  mod name, as \<open>load_mods\<close> fills it; its key \<open>'file'\<close> is the field \<open>file_name\<close>)
  and \<open>self.mod_dependencies\<close>; of the file system it reads one text file per mod.
  \<open>read_text\<close> gives the content of the file at a path (the components handed to
  \<open>os.path.join\<close>), or \<open>None\<close> when \<open>open\<close> or \<open>read\<close> raises. A subscript with a
  missing key raises \<open>KeyError\<close>.
\<close>

datatype error = KeyError

record mod_info =
  file_name :: pystr
  path :: pystr
  folder :: pystr
  github :: "pystr option"
  version :: "pystr option"

record launcher =
  mod_files :: "pystr \<rightharpoonup> mod_info"
  mod_dependencies :: "pystr \<rightharpoonup> pystr list"
  read_text :: "pystr list \<Rightarrow> pystr option"

definition EVENT_MODIFIERS_FILE :: pystr where
  "EVENT_MODIFIERS_FILE = ascii ''event_modifiers.txt''"


section \<open>The merge engine\<close>

text \<open>
  The inner loop of \<open>_merge_event_modifiers_from_paths\<close> over the pairs of one file;
  the state is \<open>(merged_values, merged_order)\<close>.
\<close>

fun merge_entries ::
  "(pystr \<times> pystr) list \<Rightarrow> (pystr \<rightharpoonup> pystr) \<times> pystr list \<Rightarrow> (pystr \<rightharpoonup> pystr) \<times> pystr list" where
  "merge_entries [] st = st"
| "merge_entries ((key, val) # es) (merged_values, merged_order) =
     merge_entries es
       (merged_values(key \<mapsto> val),
        if key \<notin> set merged_order then merged_order @ [key] else merged_order)"

text \<open>The loop over the mods: a failed read skips the mod (\<open>continue\<close>).\<close>

fun merge_mods ::
  "launcher \<Rightarrow> pystr \<Rightarrow> pystr list \<Rightarrow> (pystr \<rightharpoonup> pystr) \<times> pystr list \<Rightarrow>
   error + (pystr \<rightharpoonup> pystr) \<times> pystr list" where
  "merge_mods L mod_folder [] st = Inr st"
| "merge_mods L mod_folder (mod_name # names) st =
     (case mod_files L mod_name of
        None \<Rightarrow> Inl KeyError
      | Some info \<Rightarrow>
          (case read_text L [mod_folder, folder info, ascii ''common'', EVENT_MODIFIERS_FILE] of
             None \<Rightarrow> merge_mods L mod_folder names st
           | Some content \<Rightarrow>
               merge_mods L mod_folder names
                 (merge_entries (parse_event_modifiers_content content) st)))"

text \<open>The output lines \<open>key=val\n\<close>, joined.\<close>

fun output_lines :: "(pystr \<rightharpoonup> pystr) \<Rightarrow> pystr list \<Rightarrow> error + pystr" where
  "output_lines merged_values [] = Inr []"
| "output_lines merged_values (key # keys) =
     (case merged_values key of
        None \<Rightarrow> Inl KeyError
      | Some val \<Rightarrow>
          (case output_lines merged_values keys of
             Inl e \<Rightarrow> Inl e
           | Inr out \<Rightarrow> Inr (key @ ord CHR ''='' # val @ 10 # out)))"

definition merge_event_modifiers_from_paths ::
  "launcher \<Rightarrow> pystr \<Rightarrow> pystr list \<Rightarrow> error + pystr" where
  "merge_event_modifiers_from_paths L mod_folder ordered_mod_names =
     (case merge_mods L mod_folder ordered_mod_names (Map.empty, []) of
        Inl e \<Rightarrow> Inl e
      | Inr (merged_values, merged_order) \<Rightarrow> output_lines merged_values merged_order)"


subsection \<open>What the merge is specified against\<close>

text \<open>
  The entries one mod contributes (none when its file cannot be read), and the
  concatenation of the per-mod entry sequences in the given order.
\<close>

definition mod_entries :: "launcher \<Rightarrow> pystr \<Rightarrow> pystr \<Rightarrow> (pystr \<times> pystr) list" where
  "mod_entries L mod_folder mod_name =
     (case mod_files L mod_name of
        None \<Rightarrow> []
      | Some info \<Rightarrow>
          (case read_text L [mod_folder, folder info, ascii ''common'', EVENT_MODIFIERS_FILE] of
             None \<Rightarrow> []
           | Some content \<Rightarrow> parse_event_modifiers_content content))"

definition all_entries :: "launcher \<Rightarrow> pystr \<Rightarrow> pystr list \<Rightarrow> (pystr \<times> pystr) list" where
  "all_entries L mod_folder names = concat (map (mod_entries L mod_folder) names)"

text \<open>The value of the last entry that bears a key, if any entry does.\<close>

definition last_value :: "('k \<times> 'v) list \<Rightarrow> 'k \<Rightarrow> 'v option" where
  "last_value es k =
     (let vs = map snd (filter (\<lambda>e. fst e = k) es) in if vs = [] then None else Some (last vs))"

text \<open>The distinct elements of a list, each at the place of its first appearance.\<close>

fun first_appearance :: "'a list \<Rightarrow> 'a list" where
  "first_appearance [] = []"
| "first_appearance (x # xs) = x # first_appearance (removeAll x xs)"


section \<open>The manifest parser\<close>

text \<open>
  \<open>_parse_mod_kv\<close> of \<open>load_mods\<close>: the key and the value of a manifest line, the value
  without its surrounding double quotes; \<open>None\<close> for a line that is skipped.
\<close>

definition parse_mod_kv :: "pystr \<Rightarrow> (pystr \<times> pystr) option" where
  \<open>parse_mod_kv line =
     (let s = strip line in
      if s = [] \<or> startswith s (ascii ''#'') \<or> startswith s (ascii ''//'') then None
      else if ord CHR ''='' \<notin> set s then None
      else
        let key = strip (fst (split1 s CHR ''=''));
            val = strip (snd (split1 s CHR ''=''))
        in if startswith val (ascii ''"'') \<and> endswith val (ascii ''"'') \<and> length val \<ge> 2
           then Some (key, butlast (tl val))
           else Some (key, val))\<close>

text \<open>
  The right-hand side of the \<open>dependencies\<close> branch:
  \<^verbatim>\<open>[dep.strip().strip('"') for dep in deps_str.split(",") if dep.strip()]\<close>
  with \<^verbatim>\<open>deps_str = value.strip().strip("{}")\<close>.
\<close>

definition parse_dependencies :: "pystr \<Rightarrow> pystr list" where
  \<open>parse_dependencies val =
     (let deps_str = strip_chars (ascii ''{}'') (strip val)
      in map (\<lambda>dep. strip_chars (ascii ''"'') (strip dep))
           (filter (\<lambda>dep. strip dep \<noteq> []) (split deps_str CHR '','')))\<close>

text \<open>
  The variables the loop over the lines of one manifest assigns; \<open>github\<close> and
  \<open>version\<close> are the fields \<open>github_url\<close> and \<open>version_text\<close>.
\<close>

record manifest =
  name :: pystr
  dependencies :: "pystr list"
  user_dir :: pystr
  github_url :: pystr
  version_text :: pystr
  mod_path :: pystr

text \<open>The body of the loop over the lines, and the loop.\<close>

definition manifest_line :: "manifest \<Rightarrow> pystr \<Rightarrow> manifest" where
  "manifest_line m line =
     (case parse_mod_kv line of
        None \<Rightarrow> m
      | Some (key, val) \<Rightarrow>
          if key = ascii ''name'' then m\<lparr>name := val\<rparr>
          else if key = ascii ''dependencies'' then m\<lparr>dependencies := parse_dependencies val\<rparr>
          else if key = ascii ''path'' then m\<lparr>mod_path := val\<rparr>
          else if key = ascii ''user_dir'' then m\<lparr>user_dir := val\<rparr>
          else if key = ascii ''github'' then m\<lparr>github_url := val\<rparr>
          else if key = ascii ''version'' then m\<lparr>version_text := val\<rparr>
          else m)"

definition parse_manifest :: "pystr \<Rightarrow> manifest" where
  "parse_manifest content =
     fold (\<lambda>line m. manifest_line m line) (split content CHR ''\<newline>'')
       \<lparr>name = [], dependencies = [], user_dir = [], github_url = [], version_text = [],
        mod_path = []\<rparr>"


section \<open>The load-order resolver\<close>

text \<open>
  A Python dictionary is an association list: \<open>map_of\<close> reads a key, \<open>AList.update\<close>
  writes one (in place when the key is there, at the end otherwise). A subscript with a
  missing key raises \<open>KeyError\<close>.
\<close>

type_synonym 'v dict = "(pystr \<times> 'v) list"

text \<open>
  \<^verbatim>\<open>deps_map[mod] = [d for d in self.mod_dependencies.get(mod, []) if d in mod_names]\<close>,
  for each \<open>mod\<close> of \<open>mod_names\<close> (the variable \<open>mod\<close> is \<open>mod_name\<close> here).
\<close>

definition build_deps_map :: "launcher \<Rightarrow> pystr list \<Rightarrow> pystr list dict" where
  "build_deps_map L mod_names =
     fold (\<lambda>mod_name deps_map.
             AList.update mod_name
               (filter (\<lambda>d. d \<in> set mod_names)
                  (case mod_dependencies L mod_name of None \<Rightarrow> [] | Some ds \<Rightarrow> ds))
               deps_map)
       mod_names []"

text \<open>\<^verbatim>\<open>for dep in deps_map[mod]: in_degree[mod] += 1\<close>, the inner and the outer loop.\<close>

fun count_deps :: "int dict \<Rightarrow> pystr \<Rightarrow> pystr list \<Rightarrow> error + int dict" where
  "count_deps in_degree mod_name [] = Inr in_degree"
| "count_deps in_degree mod_name (dep # deps) =
     (case map_of in_degree mod_name of
        None \<Rightarrow> Inl KeyError
      | Some d \<Rightarrow> count_deps (AList.update mod_name (d + 1) in_degree) mod_name deps)"

fun count_in_degree :: "pystr list dict \<Rightarrow> int dict \<Rightarrow> pystr list \<Rightarrow> error + int dict" where
  "count_in_degree deps_map in_degree [] = Inr in_degree"
| "count_in_degree deps_map in_degree (mod_name # mods) =
     (case map_of deps_map mod_name of
        None \<Rightarrow> Inl KeyError
      | Some deps \<Rightarrow>
          (case count_deps in_degree mod_name deps of
             Inl e \<Rightarrow> Inl e
           | Inr in_degree' \<Rightarrow> count_in_degree deps_map in_degree' mods))"

text \<open>\<^verbatim>\<open>deque(m for m in mod_names if in_degree[m] == 0)\<close>.\<close>

fun initial_queue :: "int dict \<Rightarrow> pystr list \<Rightarrow> error + pystr list" where
  "initial_queue in_degree [] = Inr []"
| "initial_queue in_degree (m # ms) =
     (case map_of in_degree m of
        None \<Rightarrow> Inl KeyError
      | Some d \<Rightarrow>
          (case initial_queue in_degree ms of
             Inl e \<Rightarrow> Inl e
           | Inr queue \<Rightarrow> Inr (if d = 0 then m # queue else queue)))"

text \<open>
  \<^verbatim>\<open>for dep in deps_map[mod]: rev[dep].append(mod)\<close>, the inner and the outer loop. The
  dictionary \<open>rev\<close> of the source is called \<open>revd\<close> here.
\<close>

fun add_rev :: "pystr list dict \<Rightarrow> pystr \<Rightarrow> pystr list \<Rightarrow> error + pystr list dict" where
  "add_rev revd mod_name [] = Inr revd"
| "add_rev revd mod_name (dep # deps) =
     (case map_of revd dep of
        None \<Rightarrow> Inl KeyError
      | Some ms \<Rightarrow> add_rev (AList.update dep (ms @ [mod_name]) revd) mod_name deps)"

fun build_rev :: "pystr list dict \<Rightarrow> pystr list dict \<Rightarrow> pystr list \<Rightarrow> error + pystr list dict" where
  "build_rev deps_map revd [] = Inr revd"
| "build_rev deps_map revd (mod_name # mods) =
     (case map_of deps_map mod_name of
        None \<Rightarrow> Inl KeyError
      | Some deps \<Rightarrow>
          (case add_rev revd mod_name deps of
             Inl e \<Rightarrow> Inl e
           | Inr revd' \<Rightarrow> build_rev deps_map revd' mods))"

text \<open>
  The body of the \<open>while\<close> loop after the pop:
  \<^verbatim>\<open>for other in rev[m]: in_degree[other] -= 1; if in_degree[other] == 0: queue.append(other)\<close>.
\<close>

fun relax :: "pystr list \<Rightarrow> int dict \<times> pystr list \<Rightarrow> error + int dict \<times> pystr list" where
  "relax [] st = Inr st"
| "relax (other # others) (in_degree, queue) =
     (case map_of in_degree other of
        None \<Rightarrow> Inl KeyError
      | Some d \<Rightarrow>
          relax others
            (AList.update other (d - 1) in_degree,
             if d - 1 = 0 then queue @ [other] else queue))"

lemma update_positive:
  "map_of in_degree k = Some (d::int) \<Longrightarrow>
   length (filter (\<lambda>kv. 0 < snd kv) (AList.update k (d - 1) in_degree)) + (if d - 1 = 0 then 1 else 0)
     \<le> length (filter (\<lambda>kv. 0 < snd kv) in_degree)"
  by (induction in_degree) auto

lemma relax_measure:
  "relax others (in_degree, queue) = Inr (in_degree', queue') \<Longrightarrow>
   length queue' + length (filter (\<lambda>kv. 0 < snd kv) in_degree')
     \<le> length queue + length (filter (\<lambda>kv. 0 < snd kv) in_degree)"
proof (induction others arbitrary: in_degree queue)
  case Nil
  then show ?case by simp
next
  case (Cons other others)
  from Cons.prems obtain d where d: "map_of in_degree other = Some d"
    by (auto split: option.splits)
  let ?ind = "AList.update other (d - 1) in_degree"
  let ?q = "if d - 1 = 0 then queue @ [other] else queue"
  from Cons.prems d have "relax others (?ind, ?q) = Inr (in_degree', queue')"
    by simp
  then have "length queue' + length (filter (\<lambda>kv. 0 < snd kv) in_degree')
      \<le> length ?q + length (filter (\<lambda>kv. 0 < snd kv) ?ind)"
    by (rule Cons.IH)
  also have "\<dots> \<le> length queue + length (filter (\<lambda>kv. 0 < snd kv) in_degree)"
    using update_positive[OF d] by (simp split: if_splits)
  finally show ?case .
qed

text \<open>
  The \<open>while queue\<close> loop. It ends: a pop shortens the queue, and each append comes with
  an in-degree that leaves the positive numbers for good.
\<close>

function kahn_loop ::
  "pystr list dict \<Rightarrow> pystr list \<Rightarrow> pystr list \<Rightarrow> int dict \<Rightarrow> error + pystr list" where
  "kahn_loop revd [] order in_degree = Inr order"
| "kahn_loop revd (m # queue) order in_degree =
     (case map_of revd m of
        None \<Rightarrow> Inl KeyError
      | Some others \<Rightarrow>
          (case relax others (in_degree, queue) of
             Inl e \<Rightarrow> Inl e
           | Inr (in_degree', queue') \<Rightarrow> kahn_loop revd queue' (order @ [m]) in_degree'))"
  by pat_completeness auto
termination
proof (relation "measure (\<lambda>(revd, queue, order, in_degree).
    length queue + length (filter (\<lambda>kv. 0 < snd kv) in_degree))", goal_cases)
  case 1
  then show ?case by simp
next
  case (2 revd m queue order in_degree others st in_degree' queue')
  then show ?case using relax_measure[of others in_degree queue in_degree' queue'] by simp
qed

text \<open>The function up to the end of the \<open>while\<close> loop, and the whole of it.\<close>

definition kahn_order :: "launcher \<Rightarrow> pystr list \<Rightarrow> error + pystr list" where
  "kahn_order L mod_names =
     (let deps_map = build_deps_map L mod_names in
      case count_in_degree deps_map (fold (\<lambda>m d. AList.update m 0 d) mod_names []) mod_names of
        Inl e \<Rightarrow> Inl e
      | Inr in_degree \<Rightarrow>
          (case initial_queue in_degree mod_names of
             Inl e \<Rightarrow> Inl e
           | Inr queue \<Rightarrow>
               (case build_rev deps_map (fold (\<lambda>m d. AList.update m [] d) mod_names []) mod_names of
                  Inl e \<Rightarrow> Inl e
                | Inr revd \<Rightarrow> kahn_loop revd queue [] in_degree)))"

definition resolve_event_modifiers_load_order :: "launcher \<Rightarrow> pystr list \<Rightarrow> error + pystr list" where
  "resolve_event_modifiers_load_order L mod_names =
     (if mod_names = [] then Inr []
      else
        case kahn_order L mod_names of
          Inl e \<Rightarrow> Inl e
        | Inr order \<Rightarrow> if length order \<noteq> length mod_names then Inr (sort mod_names) else Inr order)"


subsection \<open>What the resolver is specified against\<close>

text \<open>
  The dependencies of a mod that are candidates themselves, and the edges of the
  dependency graph restricted to the candidates: \<open>(m, d)\<close> when \<open>d\<close> is in the dependency
  list of \<open>m\<close> and both are candidates.
\<close>

definition candidate_deps :: "launcher \<Rightarrow> pystr list \<Rightarrow> pystr \<Rightarrow> pystr list" where
  "candidate_deps L names m =
     filter (\<lambda>d. d \<in> set names) (case mod_dependencies L m of None \<Rightarrow> [] | Some ds \<Rightarrow> ds)"

definition dep_edges :: "launcher \<Rightarrow> pystr list \<Rightarrow> (pystr \<times> pystr) set" where
  "dep_edges L names = {(m, d). m \<in> set names \<and> d \<in> set (candidate_deps L names m)}"

text \<open>\<open>d\<close> stands strictly before \<open>m\<close> in a list.\<close>

definition appears_before :: "'a \<Rightarrow> 'a \<Rightarrow> 'a list \<Rightarrow> bool" where
  "appears_before d m xs \<longleftrightarrow> (\<exists>pre mid post. xs = pre @ d # mid @ m # post)"

text \<open>
  Kahn's sort with a first-in first-out queue, on the candidate list. The queue starts
  with the candidates that have no dependency among the candidates, in candidate order.
  Placing the node at the front of the queue appends, behind the nodes already waiting,
  the candidates it frees (those that depend on it and whose dependencies among the
  candidates are then all placed), in candidate order. Each step places one candidate,
  so \<open>length names\<close> steps are enough.
\<close>

fun fifo_order :: "launcher \<Rightarrow> pystr list \<Rightarrow> nat \<Rightarrow> pystr list \<Rightarrow> pystr list \<Rightarrow> pystr list" where
  "fifo_order L names n [] placed = placed"
| "fifo_order L names 0 (m # waiting) placed = placed"
| "fifo_order L names (Suc n) (m # waiting) placed =
     fifo_order L names n
       (waiting @
        filter (\<lambda>x. m \<in> set (candidate_deps L names x) \<and>
                    set (candidate_deps L names x) \<subseteq> set (placed @ [m])) names)
       (placed @ [m])"

definition fifo_kahn :: "launcher \<Rightarrow> pystr list \<Rightarrow> pystr list" where
  "fifo_kahn L names =
     fifo_order L names (length names) (filter (\<lambda>m. candidate_deps L names m = []) names) []"

text \<open>
  Kahn's sort in which the tie is broken by candidate order at every step: the node
  placed next is the first of the candidate list among the nodes that are not placed
  yet and whose dependencies among the candidates are all placed.
\<close>

fun tie_break_order :: "launcher \<Rightarrow> pystr list \<Rightarrow> nat \<Rightarrow> pystr list \<Rightarrow> pystr list" where
  "tie_break_order L names 0 placed = placed"
| "tie_break_order L names (Suc n) placed =
     (case find (\<lambda>m. m \<notin> set placed \<and> set (candidate_deps L names m) \<subseteq> set placed) names of
        None \<Rightarrow> placed
      | Some m \<Rightarrow> tie_break_order L names n (placed @ [m]))"

definition candidate_order_kahn :: "launcher \<Rightarrow> pystr list \<Rightarrow> pystr list" where
  "candidate_order_kahn L names = tie_break_order L names (length names) []"


section \<open>Example data\<close>

text \<open>
  A launcher with three mods: \<open>A\<close> and \<open>B\<close> carry a conflict-file, the read of \<open>C\<close>'s
  file fails.
\<close>

definition demo_info :: "pystr \<Rightarrow> mod_info" where
  "demo_info f =
     \<lparr>file_name = f @ ascii ''.mod'', path = ascii ''mod/'' @ f, folder = f,
      github = None, version = None\<rparr>"

definition demo :: launcher where
  "demo =
     \<lparr>mod_files = [ascii ''A'' \<mapsto> demo_info (ascii ''A''), ascii ''B'' \<mapsto> demo_info (ascii ''B''),
                   ascii ''C'' \<mapsto> demo_info (ascii ''C'')],
      mod_dependencies = [ascii ''A'' \<mapsto> [], ascii ''B'' \<mapsto> [], ascii ''C'' \<mapsto> []],
      read_text = (\<lambda>p.
        if p = [ascii ''mod'', ascii ''A'', ascii ''common'', EVENT_MODIFIERS_FILE]
        then Some (ascii ''tax=10\<newline>trade=5\<newline>'')
        else if p = [ascii ''mod'', ascii ''B'', ascii ''common'', EVENT_MODIFIERS_FILE]
        then Some (ascii ''trade=7\<newline>bonus=1\<newline>'')
        else None)\<rparr>"

text \<open>
  Launchers for the resolver, which reads \<open>mod_dependencies\<close> only: \<open>X\<close> and \<open>Y\<close>
  depend on each other; \<open>A\<close> depends on \<open>B\<close>.
\<close>

definition with_dependencies :: "(pystr \<rightharpoonup> pystr list) \<Rightarrow> launcher" where
  "with_dependencies deps = \<lparr>mod_files = Map.empty, mod_dependencies = deps, read_text = (\<lambda>p. None)\<rparr>"

definition cyclic :: launcher where
  "cyclic = with_dependencies [ascii ''X'' \<mapsto> [ascii ''Y''], ascii ''Y'' \<mapsto> [ascii ''X'']]"

definition a_needs_b :: launcher where
  "a_needs_b = with_dependencies [ascii ''A'' \<mapsto> [ascii ''B'']]"

text \<open>Candidate lists and orders of these mods.\<close>

abbreviation cand_yx :: "pystr list" where
  "cand_yx \<equiv> [ascii ''Y'', ascii ''X'']"

abbreviation cand_abcd :: "pystr list" where
  "cand_abcd \<equiv> [ascii ''A'', ascii ''B'', ascii ''C'', ascii ''D'']"

abbreviation order_bcda :: "pystr list" where
  "order_bcda \<equiv> [ascii ''B'', ascii ''C'', ascii ''D'', ascii ''A'']"

abbreviation order_bacd :: "pystr list" where
  "order_bacd \<equiv> [ascii ''B'', ascii ''A'', ascii ''C'', ascii ''D'']"


section \<open>Evaluation of the string operations\<close>

lemmas str_defs = splitlines_def islinebreak_def strip_def strip_where_def isspace_def
  startswith_def endswith_def split1_def count_def split_def strip_chars_def


section \<open>Properties of the merge engine\<close>

lemma last_value_Nil: "last_value [] k = None"
  by (simp add: last_value_def)

lemma last_value_Cons:
  "last_value (e # es) k =
     (case last_value es k of Some v \<Rightarrow> Some v | None \<Rightarrow> if fst e = k then Some (snd e) else None)"
  by (simp add: last_value_def Let_def)

lemma last_value_append:
  "last_value (es @ es') k =
     (case last_value es' k of Some v \<Rightarrow> Some v | None \<Rightarrow> last_value es k)"
  by (induction es) (auto simp: last_value_Nil last_value_Cons split: option.splits)

lemma last_value_None: "last_value es k = None \<longleftrightarrow> k \<notin> fst ` set es"
  by (induction es) (auto simp: last_value_Nil last_value_Cons split: option.splits)

lemma set_first_appearance: "set (first_appearance xs) = set xs"
  by (induction xs rule: first_appearance.induct) auto

lemma distinct_first_appearance: "distinct (first_appearance xs)"
  by (induction xs rule: first_appearance.induct) (auto simp: set_first_appearance)

lemma merge_entries_values:
  "fst (merge_entries es (mv, mo)) k = (case last_value es k of Some v \<Rightarrow> Some v | None \<Rightarrow> mv k)"
  by (induction es arbitrary: mv mo) (auto simp: last_value_Nil last_value_Cons split: option.splits)

lemma merge_entries_order:
  "snd (merge_entries es (mv, mo)) = mo @ first_appearance (filter (\<lambda>k. k \<notin> set mo) (map fst es))"
proof (induction es arbitrary: mv mo)
  case Nil
  then show ?case by simp
next
  case (Cons e es)
  obtain key val where e: "e = (key, val)" by (cases e)
  have "removeAll key (filter (\<lambda>k. k \<notin> set mo) (map fst es)) =
        filter (\<lambda>k. k \<notin> set (mo @ [key])) (map fst es)"
    by (induction es) auto
  with Cons show ?case by (simp add: e)
qed

lemma merge_entries_append:
  "merge_entries (es @ es') st = merge_entries es' (merge_entries es st)"
  by (induction es st rule: merge_entries.induct) auto

lemma merge_entries_prefix: "prefix (snd st) (snd (merge_entries es st))"
  by (cases st) (simp add: merge_entries_order)

lemma merge_state:
  "merge_entries es (Map.empty, []) = (last_value es, first_appearance (map fst es))"
proof -
  have "fst (merge_entries es (Map.empty, [])) = last_value es"
    by (rule ext) (simp add: merge_entries_values split: option.splits)
  moreover have "snd (merge_entries es (Map.empty, [])) = first_appearance (map fst es)"
    by (simp add: merge_entries_order)
  ultimately show ?thesis by (simp add: prod_eq_iff)
qed

lemma merge_mods_append:
  "merge_mods L mf (xs @ ys) st =
     (case merge_mods L mf xs st of Inl e \<Rightarrow> Inl e | Inr st' \<Rightarrow> merge_mods L mf ys st')"
  by (induction xs arbitrary: st) (auto split: option.splits)

lemma merge_mods_all_entries:
  "set names \<subseteq> dom (mod_files L) \<Longrightarrow>
   merge_mods L mf names st = Inr (merge_entries (all_entries L mf names) st)"
  by (induction names arbitrary: st)
     (auto simp: all_entries_def mod_entries_def merge_entries_append split: option.splits)

lemma merge_mods_run:
  "set names \<subseteq> dom (mod_files L) \<Longrightarrow>
   merge_mods L mf names (Map.empty, []) =
     Inr (last_value (all_entries L mf names), first_appearance (map fst (all_entries L mf names)))"
  by (simp add: merge_mods_all_entries merge_state)

lemma output_lines_eq:
  "set keys \<subseteq> dom mv \<Longrightarrow>
   output_lines mv keys = Inr (concat (map (\<lambda>k. k @ ord CHR ''='' # the (mv k) @ [10]) keys))"
  by (induction keys) (auto split: option.splits)

lemma merge_document:
  assumes "set names \<subseteq> dom (mod_files L)"
  shows "merge_event_modifiers_from_paths L mf names =
     Inr (concat (map (\<lambda>k. k @ ord CHR ''='' # the (last_value (all_entries L mf names) k) @ [10])
            (first_appearance (map fst (all_entries L mf names)))))"
proof -
  let ?es = "all_entries L mf names"
  have "set (first_appearance (map fst ?es)) \<subseteq> dom (last_value ?es)"
    using last_value_None[of ?es] by (auto simp: set_first_appearance)
  then show ?thesis
    using assms by (simp add: merge_event_modifiers_from_paths_def merge_mods_run output_lines_eq)
qed

lemma demo_entries_A:
  "mod_entries demo (ascii ''mod'') (ascii ''A'') =
     [(ascii ''tax'', ascii ''10''), (ascii ''trade'', ascii ''5'')]"
  by (simp add: mod_entries_def demo_def demo_info_def EVENT_MODIFIERS_FILE_def
      parse_event_modifiers_content_def str_defs)

lemma demo_entries_B:
  "mod_entries demo (ascii ''mod'') (ascii ''B'') =
     [(ascii ''trade'', ascii ''7''), (ascii ''bonus'', ascii ''1'')]"
  by (simp add: mod_entries_def demo_def demo_info_def EVENT_MODIFIERS_FILE_def
      parse_event_modifiers_content_def str_defs)

lemma demo_merge_A_B:
  "merge_event_modifiers_from_paths demo (ascii ''mod'') [ascii ''A'', ascii ''B''] =
     Inr (ascii ''tax=10\<newline>trade=7\<newline>bonus=1\<newline>'')"
  by (simp add: merge_event_modifiers_from_paths_def demo_def demo_info_def
      EVENT_MODIFIERS_FILE_def parse_event_modifiers_content_def str_defs)

text \<open>
  The names handed to the merge are candidates, that is installed mods: keys of
  \<open>mod_files\<close>. The theorems below say so in a hypothesis. For any other name the
  subscript \<open>self.mod_files[mod_name]\<close>, which stands outside the \<open>try\<close>, raises.
\<close>

lemma merge_unknown_name:
  "merge_event_modifiers_from_paths demo (ascii ''mod'') [ascii ''A'', ascii ''Q''] = Inl KeyError"
  by (simp add: merge_event_modifiers_from_paths_def demo_def)


text \<open>
  C2 (last writer wins). When every name of the ordered list is a key of \<open>mod_files\<close>, the
  merge loop ends without an error, and the value it has recorded for a key is the value
  of the last entry that bears the key in the concatenation of the mods' entry sequences,
  taken in the given order; a key that no entry bears has no value. This holds across
  mods and for a key repeated inside one mod. In particular the value of a key is the
  one written by the last mod of the order that has the key, whatever the mods before
  it wrote.
\<close>

theorem merge_last_writer_wins:
  assumes "set names \<subseteq> dom (mod_files L)"
  shows "\<exists>mv mo. merge_mods L mf names (Map.empty, []) = Inr (mv, mo) \<and>
           mv = last_value (all_entries L mf names) \<and>
           (\<forall>pre B post k v.
              names = pre @ B # post \<and> last_value (mod_entries L mf B) k = Some v \<and>
              (\<forall>C \<in> set post. last_value (mod_entries L mf C) k = None)
              \<longrightarrow> mv k = Some v)"
proof -
  let ?es = "all_entries L mf names"
  have run: "merge_mods L mf names (Map.empty, []) =
      Inr (last_value ?es, first_appearance (map fst ?es))"
    using assms by (rule merge_mods_run)
  have "last_value ?es k = Some v"
    if "names = pre @ B # post" "last_value (mod_entries L mf B) k = Some v"
       "\<forall>C \<in> set post. last_value (mod_entries L mf C) k = None"
    for pre B post k v
  proof -
    have "k \<notin> fst ` set (all_entries L mf post)"
      using that(3) by (auto simp: all_entries_def last_value_None)
    then have "last_value (all_entries L mf post) k = None"
      by (simp add: last_value_None)
    then show ?thesis
      using that(1,2) by (simp add: all_entries_def last_value_append)
  qed
  with run show ?thesis by blast
qed

theorem merge_last_writer_wins_witness:
  "set [ascii ''A'', ascii ''B''] \<subseteq> dom (mod_files demo) \<and>
   (\<exists>mv mo. merge_mods demo (ascii ''mod'') [ascii ''A'', ascii ''B''] (Map.empty, []) = Inr (mv, mo) \<and>
      mv (ascii ''tax'') = Some (ascii ''10'') \<and> mv (ascii ''trade'') = Some (ascii ''7''))"
proof -
  have known: "set [ascii ''A'', ascii ''B''] \<subseteq> dom (mod_files demo)"
    by (simp add: demo_def)
  from merge_last_writer_wins[OF known, of "ascii ''mod''"]
  obtain mv mo where
    run: "merge_mods demo (ascii ''mod'') [ascii ''A'', ascii ''B''] (Map.empty, []) = Inr (mv, mo)"
    and last: "\<And>pre B post k v.
      [ascii ''A'', ascii ''B''] = pre @ B # post \<Longrightarrow>
      last_value (mod_entries demo (ascii ''mod'') B) k = Some v \<Longrightarrow>
      \<forall>C \<in> set post. last_value (mod_entries demo (ascii ''mod'') C) k = None \<Longrightarrow>
      mv k = Some v"
    by blast
  have "mv (ascii ''trade'') = Some (ascii ''7'')"
    by (rule last[of "[ascii ''A'']" "ascii ''B''" "[]"])
       (simp_all add: demo_entries_B[simplified] last_value_def)
  moreover have "mv (ascii ''tax'') = Some (ascii ''10'')"
    by (rule last[of "[]" "ascii ''A''" "[ascii ''B'']"])
       (simp_all add: demo_entries_A[simplified] demo_entries_B[simplified] last_value_def)
  ultimately show ?thesis using known run by blast
qed


text \<open>
  C3 (key order). When every name of the ordered list is a key of \<open>mod_files\<close>, the merge
  ends without an error, the key order it has built lists each distinct key once, at the
  place of its first appearance in the concatenation of the mods' entry sequences, and
  the returned text is one line \<open>key=value\<close> per key in that order. Processing further
  entries only appends to the key order: a key keeps its position when a later entry
  overrides its value.
\<close>

theorem merge_key_order:
  assumes "set names \<subseteq> dom (mod_files L)"
  shows "(\<exists>mv mo. merge_mods L mf names (Map.empty, []) = Inr (mv, mo) \<and>
            mo = first_appearance (map fst (all_entries L mf names)) \<and>
            distinct mo \<and> set mo = fst ` set (all_entries L mf names) \<and>
            merge_event_modifiers_from_paths L mf names =
              Inr (concat (map (\<lambda>k. k @ ord CHR ''='' # the (mv k) @ [10]) mo))) \<and>
         (\<forall>es es' st. prefix (snd (merge_entries es st)) (snd (merge_entries (es @ es') st)))"
proof -
  have "prefix (snd (merge_entries es st)) (snd (merge_entries (es @ es') st))" for es es' st
    by (simp add: merge_entries_append merge_entries_prefix)
  then show ?thesis
    using assms
    by (simp add: merge_mods_run merge_document distinct_first_appearance set_first_appearance)
qed

theorem merge_key_order_witness:
  "set [ascii ''A'', ascii ''B''] \<subseteq> dom (mod_files demo) \<and>
   (\<exists>mv mo. merge_mods demo (ascii ''mod'') [ascii ''A'', ascii ''B''] (Map.empty, []) = Inr (mv, mo) \<and>
      mo = [ascii ''tax'', ascii ''trade'', ascii ''bonus'']) \<and>
   merge_event_modifiers_from_paths demo (ascii ''mod'') [ascii ''A'', ascii ''B''] =
     Inr (ascii ''tax=10\<newline>trade=7\<newline>bonus=1\<newline>'')"
proof -
  have known: "set [ascii ''A'', ascii ''B''] \<subseteq> dom (mod_files demo)"
    by (simp add: demo_def)
  from merge_key_order[OF known, of "ascii ''mod''"]
  obtain mv mo where
    run: "merge_mods demo (ascii ''mod'') [ascii ''A'', ascii ''B''] (Map.empty, []) = Inr (mv, mo)"
    and mo: "mo = first_appearance (map fst (all_entries demo (ascii ''mod'') [ascii ''A'', ascii ''B'']))"
    by blast
  have "mo = [ascii ''tax'', ascii ''trade'', ascii ''bonus'']"
    unfolding mo by (simp add: all_entries_def demo_entries_A[simplified] demo_entries_B[simplified])
  with known run demo_merge_A_B show ?thesis by blast
qed


text \<open>
  C8 (an unreadable mod is skipped). When the read of a mod's conflict-file fails, the
  merge of an ordered list that holds the mod returns exactly what the merge of the list
  without it returns: the other mods keep their relative positions. When the names of
  the list are keys of \<open>mod_files\<close>, that result is a document and not an error.
\<close>

theorem merge_skips_unreadable:
  assumes "mod_files L B = Some info"
    and "read_text L [mf, folder info, ascii ''common'', EVENT_MODIFIERS_FILE] = None"
  shows "merge_event_modifiers_from_paths L mf (pre @ B # post) =
           merge_event_modifiers_from_paths L mf (pre @ post) \<and>
         (set (pre @ post) \<subseteq> dom (mod_files L) \<longrightarrow>
            (\<exists>doc. merge_event_modifiers_from_paths L mf (pre @ B # post) = Inr doc))"
proof -
  have skip: "merge_mods L mf (B # post) st = merge_mods L mf post st" for st
    using assms by simp
  have "merge_mods L mf (pre @ B # post) st = merge_mods L mf (pre @ post) st" for st
    by (simp add: merge_mods_append skip del: merge_mods.simps split: sum.splits)
  then have eq: "merge_event_modifiers_from_paths L mf (pre @ B # post) =
      merge_event_modifiers_from_paths L mf (pre @ post)"
    by (simp add: merge_event_modifiers_from_paths_def)
  show ?thesis
    by (simp add: eq merge_document)
qed

theorem merge_skips_unreadable_witness:
  "mod_files demo (ascii ''C'') = Some (demo_info (ascii ''C'')) \<and>
   read_text demo [ascii ''mod'', folder (demo_info (ascii ''C'')), ascii ''common'', EVENT_MODIFIERS_FILE] = None \<and>
   set ([ascii ''A''] @ [ascii ''B'']) \<subseteq> dom (mod_files demo) \<and>
   merge_event_modifiers_from_paths demo (ascii ''mod'') ([ascii ''A''] @ ascii ''C'' # [ascii ''B'']) =
     Inr (ascii ''tax=10\<newline>trade=7\<newline>bonus=1\<newline>'')"
proof -
  have known: "mod_files demo (ascii ''C'') = Some (demo_info (ascii ''C''))"
    by (simp add: demo_def)
  have fails: "read_text demo
      [ascii ''mod'', folder (demo_info (ascii ''C'')), ascii ''common'', EVENT_MODIFIERS_FILE] = None"
    by (simp add: demo_def demo_info_def EVENT_MODIFIERS_FILE_def)
  have others: "set ([ascii ''A''] @ [ascii ''B'']) \<subseteq> dom (mod_files demo)"
    by (simp add: demo_def)
  from merge_skips_unreadable[OF known fails, of "[ascii ''A'']" "[ascii ''B'']"]
  have "merge_event_modifiers_from_paths demo (ascii ''mod'') ([ascii ''A''] @ ascii ''C'' # [ascii ''B'']) =
      merge_event_modifiers_from_paths demo (ascii ''mod'') ([ascii ''A''] @ [ascii ''B''])"
    by blast
  also have "\<dots> = Inr (ascii ''tax=10\<newline>trade=7\<newline>bonus=1\<newline>'')"
    using demo_merge_A_B by simp
  finally show ?thesis using known fails others by blast
qed


section \<open>Properties of the conflict-file parser\<close>

lemma balance_Nil: "balance [] = 0"
  by (simp add: balance_def)

lemma balance_Cons: "balance (l # ls) = count l CHR ''{'' - count l CHR ''}'' + balance ls"
  by (simp add: balance_def)

lemma joined_Nil: "joined [] = []"
  by (simp add: joined_def)

lemma joined_Cons: "joined (l # ls) = 10 # l @ joined ls"
  by (simp add: joined_def)

lemma consume_take_drop:
  assumes "k \<le> length ls"
    and "\<forall>n<k. 0 < depth + balance (take n ls)"
    and "k < length ls \<longrightarrow> depth + balance (take k ls) \<le> 0"
  shows "consume depth v ls = (v @ joined (take k ls), drop k ls)"
  using assms
proof (induction ls arbitrary: depth v k)
  case Nil
  then show ?case by (simp add: joined_Nil)
next
  case (Cons l ls)
  show ?case
  proof (cases k)
    case 0
    with Cons.prems show ?thesis by (simp add: joined_Nil balance_Nil)
  next
    case (Suc k')
    from Cons.prems(2) Suc have pos: "0 < depth" by (auto simp: balance_Nil dest: spec[of _ 0])
    let ?d = "depth + (count l CHR ''{'' - count l CHR ''}'')"
    have a: "k' \<le> length ls" using Cons.prems(1) Suc by simp
    have b: "\<forall>n<k'. 0 < ?d + balance (take n ls)"
    proof (intro allI impI)
      fix n assume "n < k'"
      then have "Suc n < k" using Suc by simp
      with Cons.prems(2) have "0 < depth + balance (take (Suc n) (l # ls))" by blast
      then show "0 < ?d + balance (take n ls)" by (simp add: balance_Cons)
    qed
    have c: "k' < length ls \<longrightarrow> ?d + balance (take k' ls) \<le> 0"
      using Cons.prems(3) Suc by (simp add: balance_Cons add.assoc)
    from Cons.IH[OF a b c, of "v @ 10 # l"] pos Suc show ?thesis
      by (simp add: joined_Cons)
  qed
qed

lemma consume_stops:
  "\<exists>k\<le>length ls. (\<forall>n<k. 0 < depth + balance (take n ls)) \<and>
      (k < length ls \<longrightarrow> depth + balance (take k ls) \<le> 0)"
proof (induction ls arbitrary: depth)
  case Nil
  then show ?case by simp
next
  case (Cons l ls)
  show ?case
  proof (cases "0 < depth")
    case False
    then have "(\<forall>n<0. 0 < depth + balance (take n (l # ls))) \<and>
       (0 < length (l # ls) \<longrightarrow> depth + balance (take 0 (l # ls)) \<le> 0)"
      by (simp add: balance_Nil)
    then show ?thesis by blast
  next
    case True
    let ?d = "depth + (count l CHR ''{'' - count l CHR ''}'')"
    from Cons[of ?d] obtain k where k: "k \<le> length ls"
      "\<forall>n<k. 0 < ?d + balance (take n ls)"
      "k < length ls \<longrightarrow> ?d + balance (take k ls) \<le> 0" by blast
    have "\<forall>n<Suc k. 0 < depth + balance (take n (l # ls))"
    proof (intro allI impI)
      fix n assume n: "n < Suc k"
      show "0 < depth + balance (take n (l # ls))"
      proof (cases n)
        case 0 with True show ?thesis by (simp add: balance_Nil)
      next
        case (Suc m)
        with n k(2) have "0 < ?d + balance (take m ls)" by simp
        with Suc show ?thesis by (simp add: balance_Cons)
      qed
    qed
    moreover have "Suc k < length (l # ls) \<longrightarrow> depth + balance (take (Suc k) (l # ls)) \<le> 0"
      using k(3) by (simp add: balance_Cons add.assoc)
    moreover have "Suc k \<le> length (l # ls)" using k(1) by simp
    ultimately show ?thesis by blast
  qed
qed

lemma set_strip: "set (strip s) \<subseteq> set s"
  by (auto simp: strip_def strip_where_def dest!: set_dropWhileD)

lemma count_pos_mem: "0 < count v c - count v d \<Longrightarrow> ord c \<in> set v"
  by (cases "count_list v (ord c) = 0") (auto simp: count_def count_list_0_iff)

lemma parse_loop_entry:
  assumes "s = strip line" "s \<noteq> []" "\<not> startswith s (ascii ''#'')" "ord CHR ''='' \<in> set s"
    and "key = strip (fst (split1 s CHR ''=''))" "v = strip (snd (split1 s CHR ''=''))"
    and "ord CHR ''{'' \<in> set v"
    and "k \<le> length rest"
    and "\<forall>n<k. 0 < count v CHR ''{'' - count v CHR ''}'' + balance (take n rest)"
    and "k < length rest \<longrightarrow> count v CHR ''{'' - count v CHR ''}'' + balance (take k rest) \<le> 0"
  shows "parse_loop (line # rest) pairs =
     parse_loop (drop k rest) (pairs @ [(key, strip (v @ joined (take k rest)))])"
proof -
  have "consume (count v CHR ''{'' - count v CHR ''}'') v rest = (v @ joined (take k rest), drop k rest)"
    using assms(8-10) by (rule consume_take_drop)
  then show ?thesis
    using assms(1-7) by (simp add: Let_def)
qed

lemma parse_loop_skip:
  assumes "strip line = [] \<or> startswith (strip line) (ascii ''#'') \<or> ord CHR ''='' \<notin> set line"
  shows "parse_loop (line # rest) pairs = parse_loop rest pairs"
proof -
  have "ord CHR ''='' \<notin> set line \<Longrightarrow> ord CHR ''='' \<notin> set (strip line)"
    using set_strip[of line] by blast
  with assms show ?thesis by (auto simp: Let_def)
qed


text \<open>
  C6, as the code has it. On a line that is not blank, is no comment and holds \<open>=\<close>, and
  whose trimmed value has more opening than closing braces, the parser appends the
  following raw lines to the value, each after a newline, as long as the running brace
  balance is positive and lines are left: it stops at the first line after which the
  balance is zero or negative, or at the end of the input. The entry's value is the
  accumulated text with its leading and trailing whitespace removed, and parsing goes on
  behind the last line consumed. The text \<open>foo={\na=1\n}\nbar=2\<close> parses to the two
  entries \<open>(foo, {\na=1\n})\<close> and \<open>(bar, 2)\<close>. A blank line, a line whose trimmed form
  starts with \<open>#\<close> and a line without \<open>=\<close> yield no entry.
\<close>

theorem parse_multiline_value:
  "(s = strip line \<and> s \<noteq> [] \<and> \<not> startswith s (ascii ''#'') \<and> ord CHR ''='' \<in> set s \<and>
    key = strip (fst (split1 s CHR ''='')) \<and> v = strip (snd (split1 s CHR ''='')) \<and>
    0 < count v CHR ''{'' - count v CHR ''}''
    \<longrightarrow> (\<exists>k\<le>length rest.
          (\<forall>n<k. 0 < count v CHR ''{'' - count v CHR ''}'' + balance (take n rest)) \<and>
          (k < length rest \<longrightarrow> count v CHR ''{'' - count v CHR ''}'' + balance (take k rest) \<le> 0) \<and>
          parse_loop (line # rest) pairs =
            parse_loop (drop k rest) (pairs @ [(key, strip (v @ joined (take k rest)))]))) \<and>
   parse_event_modifiers_content (ascii ''foo={\<newline>a=1\<newline>}\<newline>bar=2'') =
     [(ascii ''foo'', ascii ''{\<newline>a=1\<newline>}''), (ascii ''bar'', ascii ''2'')] \<and>
   (strip line' = [] \<or> startswith (strip line') (ascii ''#'') \<or> ord CHR ''='' \<notin> set line'
    \<longrightarrow> parse_loop (line' # rest') pairs' = parse_loop rest' pairs')"
proof (intro conjI impI)
  assume a: "s = strip line \<and> s \<noteq> [] \<and> \<not> startswith s (ascii ''#'') \<and> ord CHR ''='' \<in> set s \<and>
    key = strip (fst (split1 s CHR ''='')) \<and> v = strip (snd (split1 s CHR ''='')) \<and>
    0 < count v CHR ''{'' - count v CHR ''}''"
  let ?d = "count v CHR ''{'' - count v CHR ''}''"
  from consume_stops[of rest ?d] obtain k where k: "k \<le> length rest"
    "\<forall>n<k. 0 < ?d + balance (take n rest)"
    "k < length rest \<longrightarrow> ?d + balance (take k rest) \<le> 0" by blast
  from a have brace: "ord CHR ''{'' \<in> set v" by (blast intro: count_pos_mem)
  have "parse_loop (line # rest) pairs =
      parse_loop (drop k rest) (pairs @ [(key, strip (v @ joined (take k rest)))])"
    using a brace k by (intro parse_loop_entry[of s line key v k rest pairs]) blast+
  with k show "\<exists>k\<le>length rest.
          (\<forall>n<k. 0 < ?d + balance (take n rest)) \<and>
          (k < length rest \<longrightarrow> ?d + balance (take k rest) \<le> 0) \<and>
          parse_loop (line # rest) pairs =
            parse_loop (drop k rest) (pairs @ [(key, strip (v @ joined (take k rest)))])"
    by blast
next
  show "parse_event_modifiers_content (ascii ''foo={\<newline>a=1\<newline>}\<newline>bar=2'') =
     [(ascii ''foo'', ascii ''{\<newline>a=1\<newline>}''), (ascii ''bar'', ascii ''2'')]"
    by (simp add: parse_event_modifiers_content_def str_defs)
next
  assume "strip line' = [] \<or> startswith (strip line') (ascii ''#'') \<or> ord CHR ''='' \<notin> set line'"
  then show "parse_loop (line' # rest') pairs' = parse_loop rest' pairs'"
    by (rule parse_loop_skip)
qed

theorem parse_multiline_value_witness:
  "strip (ascii ''foo = {'') \<noteq> [] \<and> \<not> startswith (strip (ascii ''foo = {'')) (ascii ''#'') \<and>
   ord CHR ''='' \<in> set (strip (ascii ''foo = {'')) \<and>
   0 < count (ascii ''{'') CHR ''{'' - count (ascii ''{'') CHR ''}'' \<and>
   (\<exists>k\<le>length [ascii ''  a=1'', ascii ''} '', ascii ''bar=2''].
      parse_loop (ascii ''foo = {'' # [ascii ''  a=1'', ascii ''} '', ascii ''bar=2'']) [] =
        parse_loop (drop k [ascii ''  a=1'', ascii ''} '', ascii ''bar=2''])
          ([] @ [(ascii ''foo'', strip (ascii ''{'' @ joined (take k [ascii ''  a=1'', ascii ''} '', ascii ''bar=2''])))])) \<and>
   parse_loop (ascii ''foo = {'' # [ascii ''  a=1'', ascii ''} '', ascii ''bar=2'']) [] =
     [(ascii ''foo'', ascii ''{\<newline>  a=1\<newline>}''), (ascii ''bar'', ascii ''2'')] \<and>
   startswith (strip (ascii '' # note'')) (ascii ''#'') \<and>
   parse_loop (ascii '' # note'' # [ascii ''bar=2'']) [] = parse_loop [ascii ''bar=2''] []"
proof -
  let ?line = "ascii ''foo = {''"
  let ?rest = "[ascii ''  a=1'', ascii ''} '', ascii ''bar=2'']"
  have h: "strip ?line = strip ?line \<and> strip ?line \<noteq> [] \<and> \<not> startswith (strip ?line) (ascii ''#'') \<and>
      ord CHR ''='' \<in> set (strip ?line) \<and>
      ascii ''foo'' = strip (fst (split1 (strip ?line) CHR ''=''))  \<and>
      ascii ''{'' = strip (snd (split1 (strip ?line) CHR ''='')) \<and>
      0 < count (ascii ''{'') CHR ''{'' - count (ascii ''{'') CHR ''}''"
    by (simp add: str_defs)
  have c: "strip (ascii '' # note'') = [] \<or> startswith (strip (ascii '' # note'')) (ascii ''#'') \<or>
      ord CHR ''='' \<notin> set (ascii '' # note'')"
    by (simp add: str_defs)
  note T = parse_multiline_value[of "strip ?line" ?line "ascii ''foo''" "ascii ''{''" ?rest "[]"
      "ascii '' # note''" "[ascii ''bar=2'']" "[]"]
  from T h have 1: "\<exists>k\<le>length ?rest.
      parse_loop (?line # ?rest) [] =
        parse_loop (drop k ?rest) ([] @ [(ascii ''foo'', strip (ascii ''{'' @ joined (take k ?rest)))])"
    by blast
  from T c have 2: "parse_loop (ascii '' # note'' # [ascii ''bar=2'']) [] = parse_loop [ascii ''bar=2''] []"
    by blast
  have 3: "parse_loop (?line # ?rest) [] =
     [(ascii ''foo'', ascii ''{\<newline>  a=1\<newline>}''), (ascii ''bar'', ascii ''2'')]"
    by (simp add: str_defs)
  have 4: "startswith (strip (ascii '' # note'')) (ascii ''#'')"
    by (simp add: str_defs)
  from h 1 2 3 4 show ?thesis by blast
qed

text \<open>
  C6, as it is worded, fails where the last line consumed ends in whitespace: the raw
  line \<open>}\<close> followed by two blanks is not kept verbatim, the value ends at the brace.
\<close>

theorem parse_verbatim_counterexample:
  "parse_event_modifiers_content (ascii ''foo={\<newline>}  \<newline>bar=2'') =
     [(ascii ''foo'', ascii ''{\<newline>}''), (ascii ''bar'', ascii ''2'')] \<and>
   parse_event_modifiers_content (ascii ''foo={\<newline>}  \<newline>bar=2'') \<noteq>
     [(ascii ''foo'', ascii ''{'' @ joined [ascii ''}  '']), (ascii ''bar'', ascii ''2'')]"
  by (simp add: parse_event_modifiers_content_def str_defs joined_def)


text \<open>
  C7, as the code has it. When the outer loop stands at a line that opens a value and the
  brace balance is still positive after every following line, up to the end of the input,
  the parser consumes all the lines that are left and returns the pairs collected so far
  followed by one entry for the line: its key, and the accumulated text with its leading
  and trailing whitespace removed. The parser is a total function: there is no error to
  raise. A text whose first line is such a line parses to that single entry.
\<close>

theorem parse_unbalanced_end:
  assumes "s = strip line" "s \<noteq> []" "\<not> startswith s (ascii ''#'')" "ord CHR ''='' \<in> set s"
    and "key = strip (fst (split1 s CHR ''=''))" "v = strip (snd (split1 s CHR ''=''))"
    and "\<forall>n\<le>length rest. 0 < count v CHR ''{'' - count v CHR ''}'' + balance (take n rest)"
  shows "parse_loop (line # rest) pairs = pairs @ [(key, strip (v @ joined rest))] \<and>
         (splitlines content = line # rest \<longrightarrow>
            parse_event_modifiers_content content = [(key, strip (v @ joined rest))])"
proof -
  from assms(7) have "0 < count v CHR ''{'' - count v CHR ''}'' + balance (take 0 rest)"
    by blast
  then have "0 < count v CHR ''{'' - count v CHR ''}''"
    by (simp add: balance_Nil)
  then have brace: "ord CHR ''{'' \<in> set v"
    by (rule count_pos_mem)
  have "parse_loop (line # rest) ps =
      parse_loop (drop (length rest) rest) (ps @ [(key, strip (v @ joined (take (length rest) rest)))])" for ps
    using assms brace by (intro parse_loop_entry[of s]) auto
  then have *: "parse_loop (line # rest) ps = ps @ [(key, strip (v @ joined rest))]" for ps
    by simp
  show ?thesis
    using *[of pairs] *[of "[]"] by (simp add: parse_event_modifiers_content_def)
qed

theorem parse_unbalanced_end_witness:
  "strip (ascii ''foo={'') \<noteq> [] \<and> \<not> startswith (strip (ascii ''foo={'')) (ascii ''#'') \<and>
   ord CHR ''='' \<in> set (strip (ascii ''foo={'')) \<and>
   0 < count (ascii ''{'') CHR ''{'' - count (ascii ''{'') CHR ''}'' + balance [] \<and>
   0 < count (ascii ''{'') CHR ''{'' - count (ascii ''{'') CHR ''}'' + balance [ascii ''a=1''] \<and>
   0 < count (ascii ''{'') CHR ''{'' - count (ascii ''{'') CHR ''}'' +
       balance [ascii ''a=1'', ascii ''  ''] \<and>
   splitlines (ascii ''foo={\<newline>a=1\<newline>  '') = ascii ''foo={'' # [ascii ''a=1'', ascii ''  ''] \<and>
   parse_event_modifiers_content (ascii ''foo={\<newline>a=1\<newline>  '') = [(ascii ''foo'', ascii ''{\<newline>a=1'')]"
proof -
  let ?line = "ascii ''foo={''"
  let ?rest = "[ascii ''a=1'', ascii ''  '']"
  have h1: "strip ?line = strip ?line" "strip ?line \<noteq> []" "\<not> startswith (strip ?line) (ascii ''#'')"
    "ord CHR ''='' \<in> set (strip ?line)"
    "ascii ''foo'' = strip (fst (split1 (strip ?line) CHR ''=''))"
    "ascii ''{'' = strip (snd (split1 (strip ?line) CHR ''=''))"
    by (simp_all add: str_defs)
  have h2: "\<forall>n\<le>length ?rest.
      0 < count (ascii ''{'') CHR ''{'' - count (ascii ''{'') CHR ''}'' + balance (take n ?rest)"
    by (auto simp: count_def balance_def le_Suc_eq take_Cons')
  have h3: "splitlines (ascii ''foo={\<newline>a=1\<newline>  '') = ?line # ?rest"
    by (simp add: str_defs)
  from parse_unbalanced_end[OF h1 h2, of "[]" "ascii ''foo={\<newline>a=1\<newline>  ''"] h3
  have "parse_event_modifiers_content (ascii ''foo={\<newline>a=1\<newline>  '') =
      [(ascii ''foo'', strip (ascii ''{'' @ joined ?rest))]"
    by blast
  also have "strip (ascii ''{'' @ joined ?rest) = ascii ''{\<newline>a=1''"
    by (simp add: str_defs joined_def)
  finally have run: "parse_event_modifiers_content (ascii ''foo={\<newline>a=1\<newline>  '') =
      [(ascii ''foo'', ascii ''{\<newline>a=1'')]" .
  have h4: "0 < count (ascii ''{'') CHR ''{'' - count (ascii ''{'') CHR ''}'' + balance []"
    "0 < count (ascii ''{'') CHR ''{'' - count (ascii ''{'') CHR ''}'' + balance [ascii ''a=1'']"
    "0 < count (ascii ''{'') CHR ''{'' - count (ascii ''{'') CHR ''}'' +
       balance [ascii ''a=1'', ascii ''  '']"
    by (simp_all add: count_def balance_def)
  from run h1 h3 h4 show ?thesis by blast
qed

text \<open>
  C7, as it is worded, fails where the input ends in whitespace: the entry's value is
  not the accumulated text as it stands, the trailing blanks are gone.
\<close>

theorem parse_partial_value_counterexample:
  "parse_event_modifiers_content (ascii ''foo={\<newline>a=1  '') = [(ascii ''foo'', ascii ''{\<newline>a=1'')] \<and>
   parse_event_modifiers_content (ascii ''foo={\<newline>a=1  '') \<noteq>
     [(ascii ''foo'', ascii ''{'' @ joined [ascii ''a=1  ''])]"
  by (simp add: parse_event_modifiers_content_def str_defs joined_def)


section \<open>Properties of the manifest parser\<close>

text \<open>
  C9. A piece of the \<open>dependencies\<close> value is dropped when it is empty after trimming,
  and the double quotes are stripped only after that test. A piece that consists of
  double quotes alone passes the test and becomes the empty name: the dependency list
  parsed from \<open>dependencies = {"A", ""}\<close> holds the empty string.
\<close>

theorem dependencies_empty_name:
  \<open>dependencies (manifest_line m (ascii ''dependencies = {"A", ""}'')) = [ascii ''A'', []] \<and>
   dependencies (parse_manifest (ascii ''name = "X"\<newline>dependencies = {"A", ""}'')) = [ascii ''A'', []]\<close>
  by (simp add: parse_manifest_def manifest_line_def parse_mod_kv_def parse_dependencies_def str_defs)


section \<open>Properties of the load-order resolver\<close>

subsection \<open>The dictionaries the loops build\<close>

lemma map_of_fold_update:
  "map_of (fold (\<lambda>m d. AList.update m (f m) d) xs acc) k =
     (if k \<in> set xs then Some (f k) else map_of acc k)"
  by (induction xs arbitrary: acc) (auto simp: update_conv')

lemma map_of_build_deps_map:
  "map_of (build_deps_map L names) m =
     (if m \<in> set names then Some (candidate_deps L names m) else None)"
  unfolding build_deps_map_def candidate_deps_def
  by (simp add: map_of_fold_update)

lemma count_deps_eq:
  "map_of ind m = Some v \<Longrightarrow>
   \<exists>ind'. count_deps ind m deps = Inr ind' \<and> map_of ind' = (map_of ind)(m \<mapsto> v + int (length deps))"
proof (induction deps arbitrary: ind v)
  case Nil
  then show ?case by (auto simp: fun_upd_idem)
next
  case (Cons dep deps)
  have "map_of (AList.update m (v + 1) ind) m = Some (v + 1)"
    by (simp add: update_conv')
  from Cons.IH[OF this] Cons.prems show ?case
    by (auto simp: update_conv' add.assoc fun_eq_iff)
qed

lemma count_in_degree_eq:
  assumes "\<forall>m \<in> set mods. map_of dm m = Some (D m)" and "set mods \<subseteq> dom (map_of ind)"
  shows "\<exists>ind'. count_in_degree dm ind mods = Inr ind' \<and>
     (\<forall>x. map_of ind' x = map_option (\<lambda>v. v + int (length (D x) * count_list mods x)) (map_of ind x))"
  using assms
proof (induction mods arbitrary: ind)
  case Nil
  then show ?case by (simp add: option.map_ident)
next
  case (Cons m mods)
  from Cons.prems obtain v where v: "map_of ind m = Some v" by auto
  from count_deps_eq[OF v, of "D m"] obtain ind1 where
    1: "count_deps ind m (D m) = Inr ind1" "map_of ind1 = (map_of ind)(m \<mapsto> v + int (length (D m)))"
    by blast
  have "set mods \<subseteq> dom (map_of ind1)" using Cons.prems(2) 1(2) by auto
  with Cons.IH[of ind1] Cons.prems(1) obtain ind' where
    2: "count_in_degree dm ind1 mods = Inr ind'"
      "\<forall>x. map_of ind' x = map_option (\<lambda>v. v + int (length (D x) * count_list mods x)) (map_of ind1 x)"
    by auto
  have "map_of ind' x = map_option (\<lambda>v. v + int (length (D x) * count_list (m # mods) x)) (map_of ind x)" for x
    using 2(2) 1(2) v by (cases "x = m") (auto simp: algebra_simps)
  with 1 2 Cons.prems(1) show ?case by simp
qed

lemma initial_queue_eq:
  "set ms \<subseteq> dom (map_of ind) \<Longrightarrow>
   initial_queue ind ms = Inr (filter (\<lambda>m. map_of ind m = Some 0) ms)"
  by (induction ms) auto

lemma add_rev_eq:
  "set deps \<subseteq> dom (map_of revd) \<Longrightarrow>
   \<exists>revd'. add_rev revd m deps = Inr revd' \<and>
     (\<forall>d. map_of revd' d = map_option (\<lambda>ms. ms @ replicate (count_list deps d) m) (map_of revd d))"
proof (induction deps arbitrary: revd)
  case Nil
  then show ?case by (simp add: option.map_ident)
next
  case (Cons dep deps)
  from Cons.prems obtain ms where ms: "map_of revd dep = Some ms" by auto
  let ?r = "AList.update dep (ms @ [m]) revd"
  have "set deps \<subseteq> dom (map_of ?r)" using Cons.prems by (auto simp: update_conv')
  from Cons.IH[OF this] obtain revd' where
    1: "add_rev ?r m deps = Inr revd'"
      "\<forall>d. map_of revd' d = map_option (\<lambda>ms. ms @ replicate (count_list deps d) m) (map_of ?r d)"
    by blast
  have "map_of revd' d = map_option (\<lambda>ms. ms @ replicate (count_list (dep # deps) d) m) (map_of revd d)" for d
    using 1(2) ms by (cases "d = dep") (auto simp: update_conv' replicate_app_Cons_same)
  with 1(1) ms show ?case by simp
qed

lemma build_rev_eq:
  assumes "\<forall>m \<in> set mods. map_of dm m = Some (D m)"
    and "\<forall>m \<in> set mods. set (D m) \<subseteq> dom (map_of revd)"
  shows "\<exists>revd'. build_rev dm revd mods = Inr revd' \<and>
     (\<forall>d. map_of revd' d =
        map_option (\<lambda>ms. ms @ concat (map (\<lambda>m. replicate (count_list (D m) d) m) mods)) (map_of revd d))"
  using assms
proof (induction mods arbitrary: revd)
  case Nil
  then show ?case by (simp add: option.map_ident)
next
  case (Cons m mods)
  from Cons.prems(2) have "set (D m) \<subseteq> dom (map_of revd)" by simp
  from add_rev_eq[OF this, of m] obtain r1 where
    1: "add_rev revd m (D m) = Inr r1"
      "\<forall>d. map_of r1 d = map_option (\<lambda>ms. ms @ replicate (count_list (D m) d) m) (map_of revd d)"
    by blast
  have dom: "dom (map_of r1) = dom (map_of revd)"
    using 1(2) by (auto simp: dom_def)
  with Cons.IH[of r1] Cons.prems obtain revd' where
    2: "build_rev dm r1 mods = Inr revd'"
      "\<forall>d. map_of revd' d =
        map_option (\<lambda>ms. ms @ concat (map (\<lambda>m. replicate (count_list (D m) d) m) mods)) (map_of r1 d)"
    by auto
  have "map_of revd' d =
        map_option (\<lambda>ms. ms @ concat (map (\<lambda>m. replicate (count_list (D m) d) m) (m # mods))) (map_of revd d)" for d
    using 1(2) 2(2) by (cases "map_of revd d") auto
  with 1(1) 2(1) Cons.prems(1) show ?case by simp
qed

lemma kahn_order_eq:
  defines "D \<equiv> \<lambda>L names. candidate_deps L names"
  shows "\<exists>ind0 revd.
     kahn_order L names = kahn_loop revd (filter (\<lambda>m. D L names m = []) names) [] ind0 \<and>
     (\<forall>x. map_of ind0 x =
        (if x \<in> set names then Some (int (length (D L names x) * count_list names x)) else None)) \<and>
     (\<forall>d. map_of revd d =
        (if d \<in> set names
         then Some (concat (map (\<lambda>m. replicate (count_list (D L names m) d) m) names)) else None))"
proof -
  let ?D = "candidate_deps L names"
  let ?dm = "build_deps_map L names"
  let ?i0 = "fold (\<lambda>m d. AList.update m (0::int) d) names []"
  let ?r0 = "fold (\<lambda>m d. AList.update m ([]::pystr list) d) names []"
  have dm: "\<forall>m \<in> set names. map_of ?dm m = Some (?D m)"
    by (simp add: map_of_build_deps_map)
  have i0: "map_of ?i0 x = (if x \<in> set names then Some 0 else None)" for x
    by (simp add: map_of_fold_update)
  have r0: "map_of ?r0 x = (if x \<in> set names then Some [] else None)" for x
    by (simp add: map_of_fold_update)
  have "set names \<subseteq> dom (map_of ?i0)" by (auto simp: i0)
  from count_in_degree_eq[OF dm this] obtain ind0 where
    1: "count_in_degree ?dm ?i0 names = Inr ind0"
    and ind0: "\<And>x. map_of ind0 x =
        (if x \<in> set names then Some (int (length (?D x) * count_list names x)) else None)"
    by (auto simp: i0)
  have "set names \<subseteq> dom (map_of ind0)" by (auto simp: ind0)
  then have 2: "initial_queue ind0 names = Inr (filter (\<lambda>m. map_of ind0 m = Some 0) names)"
    by (rule initial_queue_eq)
  have 3: "filter (\<lambda>m. map_of ind0 m = Some 0) names = filter (\<lambda>m. ?D m = []) names"
    by (rule filter_cong) (auto simp: ind0 count_list_0_iff)
  have "\<forall>m \<in> set names. set (?D m) \<subseteq> dom (map_of ?r0)"
    by (auto simp: r0 candidate_deps_def)
  from build_rev_eq[OF dm this] obtain revd where
    4: "build_rev ?dm ?r0 names = Inr revd"
    and revd: "\<And>d. map_of revd d =
        (if d \<in> set names
         then Some (concat (map (\<lambda>m. replicate (count_list (?D m) d) m) names)) else None)"
    by (auto simp: r0)
  have "kahn_order L names = kahn_loop revd (filter (\<lambda>m. ?D m = []) names) [] ind0"
    by (simp add: kahn_order_def 1 2 3 4)
  with ind0 revd show ?thesis unfolding D_def by blast
qed

lemma relax_spec:
  assumes "set others \<subseteq> dom (map_of ind)"
  shows "\<exists>ind' freed. relax others (ind, q) = Inr (ind', q @ freed) \<and>
     (\<forall>x. map_of ind' x = map_option (\<lambda>v. v - int (count_list others x)) (map_of ind x)) \<and>
     distinct freed \<and> subseq freed others \<and>
     set freed = {x \<in> set others. \<exists>v. map_of ind x = Some v \<and> 1 \<le> v \<and> v \<le> int (count_list others x)}"
  using assms
proof (induction others arbitrary: ind q)
  case Nil
  have "relax [] (ind, q) = Inr (ind, q @ [])" by simp
  then show ?case by (fastforce simp: option.map_ident)
next
  case (Cons other others)
  from Cons.prems obtain v0 where v0: "map_of ind other = Some v0" by auto
  let ?i1 = "AList.update other (v0 - 1) ind"
  let ?now = "if v0 - 1 = 0 then [other] else []"
  have i1: "map_of ?i1 = (map_of ind)(other \<mapsto> v0 - 1)" by (simp add: update_conv')
  have "set others \<subseteq> dom (map_of ?i1)" using Cons.prems by (auto simp: i1)
  from Cons.IH[OF this, of "q @ ?now"] obtain ind' freed1 where
    run: "relax others (?i1, q @ ?now) = Inr (ind', (q @ ?now) @ freed1)"
    and vals: "\<And>x. map_of ind' x = map_option (\<lambda>v. v - int (count_list others x)) (map_of ?i1 x)"
    and dist: "distinct freed1" and sub: "subseq freed1 others"
    and freed1: "set freed1 =
      {x \<in> set others. \<exists>v. map_of ?i1 x = Some v \<and> 1 \<le> v \<and> v \<le> int (count_list others x)}"
    by blast
  have a: "relax (other # others) (ind, q) = Inr (ind', q @ (?now @ freed1))"
    using run v0 by (simp split: if_splits)
  have b: "map_of ind' x = map_option (\<lambda>v. v - int (count_list (other # others) x)) (map_of ind x)" for x
    using vals[of x] v0 by (cases "x = other") (auto simp: i1)
  have notin: "other \<notin> set freed1" if "v0 - 1 = 0"
    using that by (auto simp: freed1 update_conv')
  have c: "distinct (?now @ freed1)" using dist notin by auto
  have d: "subseq (?now @ freed1) (other # others)"
    using sub by (auto intro: subseq_Cons2 subseq_Cons')
  have e: "set (?now @ freed1) =
      {x \<in> set (other # others). \<exists>v. map_of ind x = Some v \<and> 1 \<le> v \<and> v \<le> int (count_list (other # others) x)}"
    (is "?lhs = ?rhs")
  proof (intro set_eqI iffI)
    fix x assume "x \<in> ?lhs"
    then show "x \<in> ?rhs"
      using v0 by (cases "x = other") (auto simp: freed1 update_conv' split: if_splits)
  next
    fix x assume x: "x \<in> ?rhs"
    show "x \<in> ?lhs"
    proof (cases "x = other")
      case True
      show ?thesis
      proof (cases "v0 - 1 = 0")
        case True
        with \<open>x = other\<close> show ?thesis by simp
      next
        case False
        with x True v0 have "2 \<le> v0" "v0 - 1 \<le> int (count_list others other)" by auto
        then have "0 < count_list others other" by linarith
        then have "other \<in> set others" using count_list_0_iff[of others other] by auto
        with \<open>2 \<le> v0\<close> \<open>v0 - 1 \<le> int (count_list others other)\<close> True show ?thesis
          by (auto simp: freed1 update_conv')
      qed
    next
      case False
      with x show ?thesis by (auto simp: freed1 update_conv')
    qed
  qed
  from a b c d e show ?case by blast
qed

lemma kahn_loop_rule:
  assumes "I queue order ind"
    and "\<And>m q out i. I (m # q) out i \<Longrightarrow>
      \<exists>others i' q'. map_of revd m = Some others \<and> relax others (i, q) = Inr (i', q') \<and> I q' (out @ [m]) i'"
  shows "\<exists>r i. kahn_loop revd queue order ind = Inr r \<and> I [] r i"
  using assms
proof (induction revd queue order ind rule: kahn_loop.induct)
  case (1 revd order in_degree)
  then show ?case by auto
next
  case (2 revd m queue order in_degree)
  from "2.prems"(2)[OF "2.prems"(1)] obtain others i' q' where
    s: "map_of revd m = Some others" "relax others (in_degree, queue) = Inr (i', q')"
      "I q' (order @ [m]) i'"
    by blast
  from "2.IH"[OF s(1) s(2) refl s(3)] "2.prems"(2) s(1,2) show ?case
    by simp
qed


subsection \<open>The loop returns\<close>

lemma subseq_set: "subseq xs ys \<Longrightarrow> set xs \<subseteq> set ys"
  by (induction rule: list_emb.induct) auto

lemma relax_prefix:
  "relax others (i, q) = Inr (i', q') \<Longrightarrow> prefix q q'"
proof (induction others arbitrary: i q)
  case Nil
  then show ?case by simp
next
  case (Cons other others)
  from Cons.prems obtain d where d: "map_of i other = Some d" by (auto split: option.splits)
  with Cons.prems have "relax others (AList.update other (d - 1) i, if d - 1 = 0 then q @ [other] else q) = Inr (i', q')"
    by simp
  from Cons.IH[OF this] show ?case by (auto split: if_splits dest: append_prefixD)
qed

lemma kahn_loop_prefix:
  "kahn_loop revd q out i = Inr r \<Longrightarrow> prefix (out @ q) r"
proof (induction revd q out i rule: kahn_loop.induct)
  case (1 revd order in_degree)
  then show ?case by simp
next
  case (2 revd m queue order in_degree)
  from "2.prems" obtain others i' q' where
    s: "map_of revd m = Some others" "relax others (in_degree, queue) = Inr (i', q')"
       "kahn_loop revd q' (order @ [m]) i' = Inr r"
    by (auto split: option.splits sum.splits)
  from "2.IH"[OF s(1) s(2) refl s(3)] have "prefix ((order @ [m]) @ q') r" .
  moreover from relax_prefix[OF s(2)] have "prefix (order @ m # queue) ((order @ [m]) @ q')"
    by simp
  ultimately show ?case using prefix_order.trans by blast
qed

lemma kahn_order_returns: "\<exists>order. kahn_order L names = Inr order"
proof -
  from kahn_order_eq[of L names] obtain ind0 revd where
    eq: "kahn_order L names =
      kahn_loop revd (filter (\<lambda>m. candidate_deps L names m = []) names) [] ind0"
    and ind0: "\<And>x. map_of ind0 x =
        (if x \<in> set names then Some (int (length (candidate_deps L names x) * count_list names x)) else None)"
    and revd: "\<And>d. map_of revd d =
        (if d \<in> set names
         then Some (concat (map (\<lambda>m. replicate (count_list (candidate_deps L names m) d) m) names)) else None)"
    by blast
  let ?I = "\<lambda>q (out::pystr list) i. set q \<subseteq> set names \<and> dom (map_of i) = set names"
  have init: "?I (filter (\<lambda>m. candidate_deps L names m = []) names) [] ind0"
    by (auto simp: ind0 dom_def)
  have step: "\<exists>others i' q'. map_of revd m = Some others \<and> relax others (i, q) = Inr (i', q') \<and>
      ?I q' (out @ [m]) i'" if "?I (m # q) out i" for m q i and out :: "pystr list"
  proof -
    let ?others = "concat (map (\<lambda>x. replicate (count_list (candidate_deps L names x) m) x) names)"
    from that have m: "map_of revd m = Some ?others" by (simp add: revd)
    have sub: "set ?others \<subseteq> set names" by auto
    with that have "set ?others \<subseteq> dom (map_of i)" by simp
    from relax_spec[OF this, of q] obtain i' freed where
      r: "relax ?others (i, q) = Inr (i', q @ freed)"
      and v: "\<And>x. map_of i' x = map_option (\<lambda>v. v - int (count_list ?others x)) (map_of i x)"
      and f: "subseq freed ?others"
      by blast
    have "dom (map_of i') = dom (map_of i)" by (auto simp: dom_def v)
    moreover have "set freed \<subseteq> set names"
      using subseq_set[OF f] sub by (rule subset_trans)
    ultimately have "?I (q @ freed) (out @ [m]) i'" using that by simp
    with m r show ?thesis by blast
  qed
  from kahn_loop_rule[of ?I, OF init step] show ?thesis
    unfolding eq by blast
qed


subsection \<open>The invariant of the loop on a duplicate-free candidate list\<close>

lemma count_list_replicate: "count_list (replicate n x) y = (if x = y then n else 0)"
  by (induction n) auto

lemma count_list_blocks:
  "count_list (concat (map (\<lambda>x. replicate (c x) x) xs)) y = c y * count_list xs y"
  by (induction xs) (auto simp: count_list_append count_list_replicate)

lemma count_list_distinct: "distinct xs \<Longrightarrow> count_list xs y = (if y \<in> set xs then 1 else 0)"
  by (induction xs) auto

lemma unprocessed_insert:
  "m \<notin> S \<Longrightarrow>
   length (filter (\<lambda>d. d \<notin> insert m S) xs) + count_list xs m = length (filter (\<lambda>d. d \<notin> S) xs)"
  by (induction xs) auto

lemma unprocessed_none: "length (filter (\<lambda>d. d \<notin> S) xs) = 0 \<longleftrightarrow> set xs \<subseteq> S"
  by (auto simp: filter_empty_conv)

lemma subseq_blocks:
  "distinct xs \<Longrightarrow> distinct fs \<Longrightarrow>
   subseq fs (concat (map (\<lambda>x. replicate (c x) x) xs)) \<Longrightarrow> subseq fs xs"
proof (induction xs arbitrary: fs)
  case Nil
  then show ?case by simp
next
  case (Cons a xs)
  from Cons.prems(3) obtain fs1 fs2 where fs: "fs = fs1 @ fs2"
    and 1: "subseq fs1 (replicate (c a) a)"
    and 2: "subseq fs2 (concat (map (\<lambda>x. replicate (c x) x) xs))"
    by (auto elim: subseq_appendE)
  from Cons.prems(2) fs have d: "distinct fs1" "distinct fs2" by auto
  from Cons.IH[OF _ d(2) 2] Cons.prems(1) have rest: "subseq fs2 xs" by simp
  from 1 have "set fs1 \<subseteq> {a}" using subseq_set[OF 1] by auto
  with d(1) have "fs1 = [] \<or> fs1 = [a]"
  proof (cases fs1)
    case Nil
    then show ?thesis by simp
  next
    case (Cons b bs)
    with \<open>set fs1 \<subseteq> {a}\<close> have b: "b = a" "set bs \<subseteq> {a}" by auto
    from Cons d(1) b have "bs = []" by (cases bs) auto
    with Cons b show ?thesis by simp
  qed
  with rest fs show ?case by auto
qed

lemma subseq_distinct_filter:
  "distinct ys \<Longrightarrow> subseq xs ys \<Longrightarrow> xs = filter (\<lambda>x. x \<in> set xs) ys"
proof (induction ys arbitrary: xs)
  case Nil
  then show ?case by simp
next
  case (Cons y ys)
  show ?case
  proof (cases xs)
    case Nil
    then show ?thesis by simp
  next
    case (Cons x xs')
    show ?thesis
    proof (cases "x = y")
      case True
      with Cons Cons.prems have s: "subseq xs' ys" by simp
      from subseq_set[OF s] Cons.prems(1) have "y \<notin> set xs'" by auto
      moreover from Cons.IH[OF _ s] Cons.prems(1) have "xs' = filter (\<lambda>x. x \<in> set xs') ys" by simp
      moreover have "filter (\<lambda>z. z \<in> set (y # xs')) ys = filter (\<lambda>z. z \<in> set xs') ys"
        using Cons.prems(1) by (intro filter_cong) auto
      ultimately show ?thesis using Cons True by simp
    next
      case False
      with Cons Cons.prems have s: "subseq xs ys" by simp
      from subseq_set[OF s] Cons.prems(1) have "y \<notin> set xs" by auto
      with Cons.IH[OF _ s] Cons.prems(1) show ?thesis by simp
    qed
  qed
qed

lemma distinct_length_le:
  "distinct xs \<Longrightarrow> set xs \<subseteq> set ys \<Longrightarrow> length xs \<le> length ys"
  by (metis card_length card_mono distinct_card finite_set le_trans)

lemma kahn_order_distinct:
  assumes "distinct names"
  shows "\<exists>r. kahn_order L names = Inr r \<and> distinct r \<and> set r \<subseteq> set names \<and>
     (\<forall>x \<in> set names. x \<in> set r \<longleftrightarrow> set (candidate_deps L names x) \<subseteq> set r) \<and>
     (\<forall>pre x post. r = pre @ x # post \<longrightarrow> set (candidate_deps L names x) \<subseteq> set pre) \<and>
     r = fifo_kahn L names"
proof -
  define D where "D = candidate_deps L names"
  define u where "u S x = length (filter (\<lambda>d. d \<notin> S) (D x))" for S x
  define rv where "rv m = concat (map (\<lambda>x. replicate (count_list (D x) m) x) names)" for m
  from kahn_order_eq[of L names] obtain ind0 revd where
    eq: "kahn_order L names = kahn_loop revd (filter (\<lambda>m. D m = []) names) [] ind0"
    and ind0: "\<And>x. map_of ind0 x =
        (if x \<in> set names then Some (int (length (D x) * count_list names x)) else None)"
    and revd: "\<And>d. map_of revd d = (if d \<in> set names then Some (rv d) else None)"
    unfolding D_def rv_def by blast
  have D_names: "set (D x) \<subseteq> set names" for x
    by (auto simp: D_def candidate_deps_def)
  have count_rv: "count_list (rv m) x = (if x \<in> set names then count_list (D x) m else 0)" for m x
    by (simp add: rv_def count_list_blocks count_list_distinct[OF assms])
  have set_rv: "set (rv m) \<subseteq> set names" for m
    by (auto simp: rv_def)
  have in_rv: "x \<in> set (rv m) \<longleftrightarrow> x \<in> set names \<and> m \<in> set (D x)" for m x
    using count_list_0_iff[of "rv m" x] count_list_0_iff[of "D x" m]
    by (auto simp: count_rv split: if_splits)
  define I where "I q out i \<longleftrightarrow>
      distinct (out @ q) \<and> set (out @ q) \<subseteq> set names \<and> dom (map_of i) = set names \<and>
      (\<forall>x \<in> set names. map_of i x = Some (int (u (set out) x))) \<and>
      (\<forall>x \<in> set names. x \<in> set (out @ q) \<longleftrightarrow> set (D x) \<subseteq> set out) \<and>
      (\<forall>pre x post. out = pre @ x # post \<longrightarrow> set (D x) \<subseteq> set pre) \<and>
      fifo_order L names (length names - length out) q out = fifo_kahn L names"
    for q out and i :: "int dict"
  have init: "I (filter (\<lambda>m. D m = []) names) [] ind0"
    unfolding I_def using assms
    by (auto simp: ind0 dom_def u_def count_list_distinct fifo_kahn_def D_def)
  have step: "\<exists>others i' q'. map_of revd m = Some others \<and> relax others (i, q) = Inr (i', q') \<and>
      I q' (out @ [m]) i'" if inv: "I (m # q) out i" for m q out i
  proof -
    from inv have dist: "distinct (out @ m # q)" and sub: "set (out @ m # q) \<subseteq> set names"
      and dom: "dom (map_of i) = set names"
      and val: "\<And>x. x \<in> set names \<Longrightarrow> map_of i x = Some (int (u (set out) x))"
      and proc: "\<And>x. x \<in> set names \<Longrightarrow> x \<in> set (out @ m # q) \<longleftrightarrow> set (D x) \<subseteq> set out"
      and topo: "\<And>pre x post. out = pre @ x # post \<Longrightarrow> set (D x) \<subseteq> set pre"
      and ghost: "fifo_order L names (length names - length out) (m # q) out = fifo_kahn L names"
      unfolding I_def by blast+
    from sub have m: "m \<in> set names" by simp
    from dist have m_new: "m \<notin> set out" by simp
    have look: "map_of revd m = Some (rv m)" using m by (simp add: revd)
    have "set (rv m) \<subseteq> dom (map_of i)" using set_rv dom by simp
    from relax_spec[OF this, of q] obtain i' freed where
      run: "relax (rv m) (i, q) = Inr (i', q @ freed)"
      and val': "\<And>x. map_of i' x = map_option (\<lambda>v. v - int (count_list (rv m) x)) (map_of i x)"
      and dfreed: "distinct freed" and sfreed: "subseq freed (rv m)"
      and freed: "set freed =
        {x \<in> set (rv m). \<exists>v. map_of i x = Some v \<and> 1 \<le> v \<and> v \<le> int (count_list (rv m) x)}"
      by blast
    have split: "u (set out) x = u (insert m (set out)) x + count_list (D x) m" for x
      unfolding u_def using unprocessed_insert[OF m_new, of "D x"] by simp
    have zero: "u S x = 0 \<longleftrightarrow> set (D x) \<subseteq> S" for S x
      unfolding u_def by (rule unprocessed_none)
    have freed_iff: "x \<in> set freed \<longleftrightarrow>
        x \<in> set names \<and> m \<in> set (D x) \<and> set (D x) \<subseteq> insert m (set out)" for x
    proof (cases "x \<in> set names \<and> m \<in> set (D x)")
      case False
      then show ?thesis by (auto simp: freed in_rv)
    next
      case True
      then have pos: "0 < count_list (D x) m"
        using count_list_0_iff[of "D x" m] by auto
      from True have "x \<in> set freed \<longleftrightarrow>
          1 \<le> int (u (set out) x) \<and> int (u (set out) x) \<le> int (count_list (D x) m)"
        by (simp add: freed in_rv val count_rv)
      also have "\<dots> \<longleftrightarrow> u (insert m (set out)) x = 0"
        using pos split[of x] by auto
      also have "\<dots> \<longleftrightarrow> set (D x) \<subseteq> insert m (set out)" by (rule zero)
      finally show ?thesis using True by simp
    qed
    have a1: "distinct ((out @ [m]) @ q @ freed)"
    proof -
      have "x \<notin> set (out @ m # q)" if "x \<in> set freed" for x
      proof -
        from that freed_iff have x: "x \<in> set names" "m \<in> set (D x)" by auto
        with m_new have "\<not> set (D x) \<subseteq> set out" by auto
        with proc[OF x(1)] show ?thesis by simp
      qed
      with dist dfreed show ?thesis by auto
    qed
    have a2: "set ((out @ [m]) @ q @ freed) \<subseteq> set names"
      using sub freed_iff by auto
    have a3: "dom (map_of i') = set names"
      using dom by (auto simp: dom_def val')
    have a4: "map_of i' x = Some (int (u (set (out @ [m])) x))" if "x \<in> set names" for x
      using that split[of x] by (simp add: val' val count_rv)
    have a5: "x \<in> set ((out @ [m]) @ q @ freed) \<longleftrightarrow> set (D x) \<subseteq> set (out @ [m])"
      if "x \<in> set names" for x
    proof -
      have "x \<in> set ((out @ [m]) @ q @ freed) \<longleftrightarrow> x \<in> set (out @ m # q) \<or> x \<in> set freed"
        by auto
      also have "\<dots> \<longleftrightarrow> set (D x) \<subseteq> set out \<or>
          (m \<in> set (D x) \<and> set (D x) \<subseteq> insert m (set out))"
        using proc[OF that] freed_iff[of x] that by simp
      also have "\<dots> \<longleftrightarrow> set (D x) \<subseteq> set (out @ [m])" by auto
      finally show ?thesis .
    qed
    have a6: "set (D x) \<subseteq> set pre" if "out @ [m] = pre @ x # post" for pre x post
    proof (cases post rule: rev_cases)
      case Nil
      with that have "pre = out" "x = m" by auto
      moreover have "set (D m) \<subseteq> set out" using proc[OF m] by simp
      ultimately show ?thesis by simp
    next
      case (snoc post' y)
      with that have "out = pre @ x # post'" by (metis append_Cons append_assoc butlast_snoc)
      then show ?thesis by (rule topo)
    qed
    have "subseq freed names"
      using assms dfreed sfreed unfolding rv_def by (rule subseq_blocks)
    with assms have "freed = filter (\<lambda>x. x \<in> set freed) names"
      by (rule subseq_distinct_filter)
    also have "\<dots> = filter (\<lambda>x. m \<in> set (D x) \<and> set (D x) \<subseteq> set (out @ [m])) names"
      by (rule filter_cong) (auto simp: freed_iff)
    finally have freed_eq:
      "freed = filter (\<lambda>x. m \<in> set (D x) \<and> set (D x) \<subseteq> set (out @ [m])) names" .
    have "length (out @ m # q) \<le> length names"
      using dist sub by (rule distinct_length_le)
    then have "length names - length out = Suc (length names - length (out @ [m]))"
      by simp
    with ghost have a7:
      "fifo_order L names (length names - length (out @ [m])) (q @ freed) (out @ [m]) = fifo_kahn L names"
      using freed_eq by (simp add: D_def)
    have "I (q @ freed) (out @ [m]) i'"
      unfolding I_def using a1 a2 a3 a4 a5 a6 a7 by blast
    with look run show ?thesis by blast
  qed
  from kahn_loop_rule[of I, OF init step] obtain r i where
    r: "kahn_loop revd (filter (\<lambda>m. D m = []) names) [] ind0 = Inr r" and fin: "I [] r i"
    by blast
  from fin have f1: "distinct (r @ []) \<and> set (r @ []) \<subseteq> set names \<and>
      (\<forall>x \<in> set names. x \<in> set (r @ []) \<longleftrightarrow> set (D x) \<subseteq> set r) \<and>
      (\<forall>pre x post. r = pre @ x # post \<longrightarrow> set (D x) \<subseteq> set pre)"
    and f2: "fifo_order L names (length names - length r) [] r = fifo_kahn L names"
    unfolding I_def by blast+
  from f1 have "distinct r" "set r \<subseteq> set names"
    "\<forall>x \<in> set names. x \<in> set r \<longleftrightarrow> set (D x) \<subseteq> set r"
    "\<forall>pre x post. r = pre @ x # post \<longrightarrow> set (D x) \<subseteq> set pre"
    by simp_all
  moreover from f2 have "r = fifo_kahn L names" by simp
  moreover have "kahn_order L names = Inr r" using r eq by simp
  ultimately have "kahn_order L names = Inr r \<and> distinct r \<and> set r \<subseteq> set names \<and>
      (\<forall>x \<in> set names. x \<in> set r \<longleftrightarrow> set (D x) \<subseteq> set r) \<and>
      (\<forall>pre x post. r = pre @ x # post \<longrightarrow> set (D x) \<subseteq> set pre) \<and>
      r = fifo_kahn L names"
    by (intro conjI)
  then show ?thesis unfolding D_def by (rule exI)
qed


subsection \<open>Acyclic and cyclic candidate graphs\<close>

lemma finite_dep_edges: "finite (dep_edges L names)"
proof -
  have "dep_edges L names \<subseteq> set names \<times> set names"
    by (auto simp: dep_edges_def candidate_deps_def)
  then show ?thesis by (rule finite_subset) simp
qed

lemma kahn_complete_acyclic:
  assumes "distinct names" "acyclic (dep_edges L names)"
    and r: "set r \<subseteq> set names"
      "\<forall>x \<in> set names. x \<in> set r \<longleftrightarrow> set (candidate_deps L names x) \<subseteq> set r"
  shows "set r = set names"
proof (rule ccontr)
  assume "set r \<noteq> set names"
  with r(1) obtain z0 where z0: "z0 \<in> set names - set r" by auto
  have "wf ((dep_edges L names)\<inverse>)"
    using finite_dep_edges assms(2) by (rule finite_acyclic_wf_converse)
  from wfE_min[OF this z0] obtain z where z: "z \<in> set names - set r"
    and least: "\<And>y. (y, z) \<in> (dep_edges L names)\<inverse> \<Longrightarrow> y \<notin> set names - set r"
    by blast
  from z r(2) obtain d where d: "d \<in> set (candidate_deps L names z)" "d \<notin> set r" by auto
  then have "d \<in> set names" by (auto simp: candidate_deps_def)
  moreover from z d(1) have "(d, z) \<in> (dep_edges L names)\<inverse>" by (simp add: dep_edges_def)
  ultimately show False using least d(2) by blast
qed

lemma takeWhile_upto: "m \<notin> set pre \<Longrightarrow> takeWhile (\<lambda>y. y \<noteq> m) (pre @ m # post) = pre"
  by (induction pre) auto

lemma takeWhile_inside:
  "d \<in> set pre \<Longrightarrow> length (takeWhile (\<lambda>y. y \<noteq> d) (pre @ rest)) < length pre"
  by (induction pre) auto

lemma topological_acyclic:
  assumes "distinct r" "set names \<subseteq> set r"
    and topo: "\<forall>pre x post. r = pre @ x # post \<longrightarrow> set (candidate_deps L names x) \<subseteq> set pre"
  shows "acyclic (dep_edges L names)"
proof -
  define idx where "idx x = length (takeWhile (\<lambda>y. y \<noteq> x) r)" for x
  have "(d, m) \<in> measure idx" if "(m, d) \<in> dep_edges L names" for m d
  proof -
    from that have m: "m \<in> set names" and d: "d \<in> set (candidate_deps L names m)"
      by (auto simp: dep_edges_def)
    from m assms(2) have "m \<in> set r" by blast
    then obtain pre post where split: "r = pre @ m # post" by (auto dest: split_list)
    with assms(1) have m_pre: "m \<notin> set pre" by simp
    from topo split d have d_pre: "d \<in> set pre" by blast
    have "idx m = length pre"
      unfolding idx_def split using m_pre by (simp add: takeWhile_upto)
    moreover have "idx d < length pre"
      unfolding idx_def split using d_pre by (rule takeWhile_inside)
    ultimately show ?thesis by simp
  qed
  then have "(dep_edges L names)\<inverse> \<subseteq> measure idx" by auto
  then have "wf ((dep_edges L names)\<inverse>)" by (rule wf_subset[OF wf_measure])
  then have "acyclic ((dep_edges L names)\<inverse>)" by (rule wf_acyclic)
  then show ?thesis by simp
qed

lemma resolve_distinct_cases:
  assumes "distinct names"
  shows "\<exists>r. kahn_order L names = Inr r \<and> distinct r \<and> set r \<subseteq> set names \<and>
     (acyclic (dep_edges L names) \<longrightarrow>
        set r = set names \<and> length r = length names \<and> r = fifo_kahn L names \<and>
        (\<forall>pre x post. r = pre @ x # post \<longrightarrow> set (candidate_deps L names x) \<subseteq> set pre)) \<and>
     (\<not> acyclic (dep_edges L names) \<longrightarrow> length r < length names)"
proof -
  from kahn_order_distinct[OF assms, of L] obtain r where
    r: "kahn_order L names = Inr r" "distinct r" "set r \<subseteq> set names"
      "\<forall>x \<in> set names. x \<in> set r \<longleftrightarrow> set (candidate_deps L names x) \<subseteq> set r"
      "\<forall>pre x post. r = pre @ x # post \<longrightarrow> set (candidate_deps L names x) \<subseteq> set pre"
      "r = fifo_kahn L names"
    by blast
  have len: "length r = length names" if "set r = set names"
    using that r(2) assms by (metis distinct_card)
  have a: "set r = set names" if "acyclic (dep_edges L names)"
    using assms that r(3,4) by (rule kahn_complete_acyclic)
  have b: "length r < length names" if "\<not> acyclic (dep_edges L names)"
  proof -
    have "set r \<noteq> set names"
      using topological_acyclic[OF r(2) _ r(5)] that by auto
    with r(3) have "set r \<subset> set names" by blast
    then have "card (set r) < card (set names)" by (simp add: psubset_card_mono)
    with r(2) assms show ?thesis by (simp add: distinct_card)
  qed
  from r a b len show ?thesis by blast
qed


subsection \<open>The claims about the resolver\<close>

lemmas resolver_defs = resolve_event_modifiers_load_order_def kahn_order_def build_deps_map_def
  with_dependencies_def

lemma resolve_returns: "\<exists>r. resolve_event_modifiers_load_order L names = Inr r"
  using kahn_order_returns[of L names]
  by (auto simp: resolve_event_modifiers_load_order_def)

lemma kahn_order_Nil: "kahn_order L [] = Inr []"
  by (simp add: kahn_order_def build_deps_map_def)

lemma build_deps_map_cong:
  assumes "\<forall>m \<in> set names. candidate_deps L' names m = candidate_deps L names m"
  shows "build_deps_map L' names = build_deps_map L names"
proof -
  have "fold (\<lambda>m dm. AList.update m (candidate_deps L' names m) dm) xs acc =
        fold (\<lambda>m dm. AList.update m (candidate_deps L names m) dm) xs acc"
    if "set xs \<subseteq> set names" for xs acc
    using that assms by (induction xs arbitrary: acc) auto
  from this[of names "[]"] show ?thesis
    by (simp add: build_deps_map_def candidate_deps_def)
qed

lemma resolve_cong:
  assumes "\<forall>m \<in> set names. candidate_deps L' names m = candidate_deps L names m"
  shows "resolve_event_modifiers_load_order L' names = resolve_event_modifiers_load_order L names"
  using build_deps_map_cong[OF assms]
  by (simp add: resolve_event_modifiers_load_order_def kahn_order_def)

lemma kahn_order_initial:
  assumes "kahn_order L names = Inr r"
  shows "prefix (filter (\<lambda>m. candidate_deps L names m = []) names) r"
proof -
  from kahn_order_eq[of L names] obtain ind0 revd where
    "kahn_order L names = kahn_loop revd (filter (\<lambda>m. candidate_deps L names m = []) names) [] ind0"
    by blast
  with assms kahn_loop_prefix[of revd "filter (\<lambda>m. candidate_deps L names m = []) names" "[]" ind0 r]
  show ?thesis by simp
qed

lemma a_needs_b_edges:
  "dep_edges a_needs_b cand_abcd = {(ascii ''A'', ascii ''B'')}"
  by (auto simp: dep_edges_def candidate_deps_def a_needs_b_def with_dependencies_def split: if_splits)

lemma a_needs_b_acyclic:
  "acyclic (dep_edges a_needs_b cand_abcd)"
proof -
  have "wf ({} :: (pystr \<times> pystr) set)" by simp
  then have "acyclic ({} :: (pystr \<times> pystr) set)" by (rule wf_acyclic)
  then show ?thesis unfolding a_needs_b_edges by (simp add: acyclic_insert)
qed

lemma a_needs_b_run:
  "resolve_event_modifiers_load_order a_needs_b cand_abcd =
     Inr order_bcda"
  by (simp add: resolver_defs a_needs_b_def)

lemma a_needs_b_fifo:
  "fifo_kahn a_needs_b cand_abcd =
     order_bcda"
  by (simp add: fifo_kahn_def candidate_deps_def a_needs_b_def with_dependencies_def)

lemma a_needs_b_candidate_order:
  "candidate_order_kahn a_needs_b cand_abcd =
     order_bacd"
  by (simp add: candidate_order_kahn_def candidate_deps_def a_needs_b_def with_dependencies_def)

lemma cyclic_edges:
  "(ascii ''X'', ascii ''X'') \<in> (dep_edges cyclic cand_yx)\<^sup>+"
proof -
  have "(ascii ''X'', ascii ''Y'') \<in> dep_edges cyclic cand_yx"
    by (simp add: dep_edges_def candidate_deps_def cyclic_def with_dependencies_def)
  moreover have "(ascii ''Y'', ascii ''X'') \<in> dep_edges cyclic cand_yx"
    by (simp add: dep_edges_def candidate_deps_def cyclic_def with_dependencies_def)
  ultimately show ?thesis by (rule trancl_into_trancl[OF r_into_trancl])
qed

lemma cyclic_not_acyclic: "\<not> acyclic (dep_edges cyclic cand_yx)"
  using cyclic_edges by (auto simp: acyclic_def)

text \<open>
  The candidate set reaches the resolver as a list in which no name is repeated: the
  caller collects it from the tree of the installed mods, one item per key of
  \<open>mod_files\<close>. The theorems on the order say so in a hypothesis. A list with a
  repeated name can make the loop place fewer names than the list holds although no
  cycle exists, and the sorted fallback then ignores the dependencies.
\<close>

lemma resolve_repeated_name:
  "resolve_event_modifiers_load_order (with_dependencies [ascii ''B'' \<mapsto> [ascii ''Z'']])
     [ascii ''Z'', ascii ''B'', ascii ''B''] = Inr [ascii ''B'', ascii ''B'', ascii ''Z'']"
  by (simp add: resolver_defs)


text \<open>
  C1 (topological correctness). The candidate set is given as a list without repeated
  names, as the caller collects it. When the dependency graph restricted to the
  candidates is acyclic, the resolver returns a list in which, for every candidate \<open>m\<close>
  and every \<open>d\<close> of its dependency list that is a candidate too, \<open>d\<close> stands strictly
  before \<open>m\<close>. A dependency that names a mod outside the candidate set imposes nothing:
  the result is the same for every dependency map that has the same dependencies among
  the candidates.
\<close>

theorem resolve_topological:
  assumes "distinct names" and "acyclic (dep_edges L names)"
  shows "\<exists>r. resolve_event_modifiers_load_order L names = Inr r \<and>
     (\<forall>m d. (m, d) \<in> dep_edges L names \<longrightarrow> appears_before d m r) \<and>
     (\<forall>L'. (\<forall>m \<in> set names. candidate_deps L' names m = candidate_deps L names m) \<longrightarrow>
        resolve_event_modifiers_load_order L' names = Inr r)"
proof -
  from resolve_distinct_cases[OF assms(1), of L] assms(2) obtain r where
    r: "kahn_order L names = Inr r" "set r = set names" "length r = length names"
      "\<forall>pre x post. r = pre @ x # post \<longrightarrow> set (candidate_deps L names x) \<subseteq> set pre"
    by blast
  have run: "resolve_event_modifiers_load_order L names = Inr r"
    using r(1,3) by (auto simp: resolve_event_modifiers_load_order_def)
  have "appears_before d m r" if "(m, d) \<in> dep_edges L names" for m d
  proof -
    from that have m: "m \<in> set names" and d: "d \<in> set (candidate_deps L names m)"
      by (auto simp: dep_edges_def)
    from m r(2) have "m \<in> set r" by simp
    then obtain pre post where split: "r = pre @ m # post"
      by (auto dest: split_list)
    with r(4) d have "d \<in> set pre" by blast
    then obtain p1 p2 where "pre = p1 @ d # p2" by (auto dest: split_list)
    with split have "r = p1 @ d # p2 @ m # post" by simp
    then show ?thesis unfolding appears_before_def by blast
  qed
  moreover have "resolve_event_modifiers_load_order L' names = Inr r"
    if "\<forall>m \<in> set names. candidate_deps L' names m = candidate_deps L names m" for L'
    using resolve_cong[OF that] run by simp
  ultimately show ?thesis using run by blast
qed

theorem resolve_topological_witness:
  "distinct cand_abcd \<and> acyclic (dep_edges a_needs_b cand_abcd) \<and>
   (ascii ''A'', ascii ''B'') \<in> dep_edges a_needs_b cand_abcd \<and>
   resolve_event_modifiers_load_order a_needs_b cand_abcd = Inr order_bcda \<and>
   appears_before (ascii ''B'') (ascii ''A'') order_bcda"
proof -
  have d: "distinct cand_abcd" by simp
  from resolve_topological[OF d a_needs_b_acyclic] obtain r where
    r: "resolve_event_modifiers_load_order a_needs_b cand_abcd = Inr r"
    and before: "\<And>m d. (m, d) \<in> dep_edges a_needs_b cand_abcd \<Longrightarrow> appears_before d m r"
    by blast
  from r a_needs_b_run have "r = order_bcda" by simp
  moreover have e: "(ascii ''A'', ascii ''B'') \<in> dep_edges a_needs_b cand_abcd"
    unfolding a_needs_b_edges by simp
  ultimately have "appears_before (ascii ''B'') (ascii ''A'') order_bcda"
    using before by blast
  with d a_needs_b_acyclic e a_needs_b_run show ?thesis by blast
qed


text \<open>
  C4 (fallback on a cycle). The resolver returns a list for every candidate list and
  every dependency map: no subscript of its dictionaries fails. When the topological
  sort has produced fewer names than there are candidates, the list returned is the
  candidate list sorted in ascending lexicographic order of the code points. That is
  the case whenever the dependency graph restricted to a duplicate-free candidate list
  has a cycle. For the candidates \<open>X\<close> and \<open>Y\<close> that depend on each other, the result is
  \<open>[X, Y]\<close>.
\<close>

theorem resolve_cycle_fallback:
  "(\<exists>r. resolve_event_modifiers_load_order L names = Inr r) \<and>
   (kahn_order L names = Inr order \<and> length order < length names
      \<longrightarrow> resolve_event_modifiers_load_order L names = Inr (sort names)) \<and>
   (distinct names \<and> \<not> acyclic (dep_edges L names)
      \<longrightarrow> resolve_event_modifiers_load_order L names = Inr (sort names)) \<and>
   resolve_event_modifiers_load_order cyclic [ascii ''X'', ascii ''Y''] = Inr [ascii ''X'', ascii ''Y'']"
proof (intro conjI impI)
  show "\<exists>r. resolve_event_modifiers_load_order L names = Inr r"
    by (rule resolve_returns)
next
  assume "kahn_order L names = Inr order \<and> length order < length names"
  then show "resolve_event_modifiers_load_order L names = Inr (sort names)"
    by (auto simp: resolve_event_modifiers_load_order_def)
next
  assume a: "distinct names \<and> \<not> acyclic (dep_edges L names)"
  with resolve_distinct_cases[of names L] obtain r where
    "kahn_order L names = Inr r" "length r < length names"
    by blast
  then show "resolve_event_modifiers_load_order L names = Inr (sort names)"
    by (auto simp: resolve_event_modifiers_load_order_def)
next
  show "resolve_event_modifiers_load_order cyclic [ascii ''X'', ascii ''Y''] =
      Inr [ascii ''X'', ascii ''Y'']"
    by (simp add: resolver_defs cyclic_def)
qed

theorem resolve_cycle_fallback_witness:
  "kahn_order cyclic cand_yx = Inr [] \<and>
   length ([] :: pystr list) < length cand_yx \<and>
   distinct cand_yx \<and> \<not> acyclic (dep_edges cyclic cand_yx) \<and>
   resolve_event_modifiers_load_order cyclic cand_yx = Inr [ascii ''X'', ascii ''Y'']"
proof -
  have run: "kahn_order cyclic cand_yx = Inr []"
    by (simp add: resolver_defs cyclic_def)
  have short: "length ([] :: pystr list) < length cand_yx"
    by simp
  have d: "distinct cand_yx" by simp
  from resolve_cycle_fallback[of cyclic cand_yx "[]"] d cyclic_not_acyclic
  have "resolve_event_modifiers_load_order cyclic cand_yx =
      Inr (sort cand_yx)"
    by blast
  then have "resolve_event_modifiers_load_order cyclic cand_yx =
      Inr [ascii ''X'', ascii ''Y'']"
    by simp
  with run short d cyclic_not_acyclic show ?thesis by blast
qed


text \<open>
  C5, as the code has it. The queue of the Kahn sort is first-in first-out. It starts
  with the candidates that have no dependency among the candidates, in candidate order,
  and they are the first names of the resolved order. What waits in the queue is
  placed next, in queue order, before anything that enters the queue later; a node
  whose in-degree drops to zero while another node is placed enters at the back, and the
  nodes one node frees enter in candidate order. On a duplicate-free candidate list
  with an acyclic restricted graph the resolved order is the one this rule determines.
\<close>

theorem resolve_fifo_tie_break:
  "(distinct names \<and> acyclic (dep_edges L names) \<longrightarrow>
      resolve_event_modifiers_load_order L names = Inr (fifo_kahn L names)) \<and>
   (kahn_order L names' = Inr r' \<longrightarrow>
      prefix (filter (\<lambda>m. candidate_deps L names' m = []) names') r') \<and>
   (kahn_loop revd q out i = Inr r \<longrightarrow> prefix (out @ q) r)"
proof (intro conjI impI)
  assume a: "distinct names \<and> acyclic (dep_edges L names)"
  with resolve_distinct_cases[of names L] obtain r where
    "kahn_order L names = Inr r" "length r = length names" "r = fifo_kahn L names"
    by blast
  then show "resolve_event_modifiers_load_order L names = Inr (fifo_kahn L names)"
    by (auto simp: resolve_event_modifiers_load_order_def)
next
  assume "kahn_order L names' = Inr r'"
  then show "prefix (filter (\<lambda>m. candidate_deps L names' m = []) names') r'"
    by (rule kahn_order_initial)
next
  assume "kahn_loop revd q out i = Inr r"
  then show "prefix (out @ q) r" by (rule kahn_loop_prefix)
qed

theorem resolve_fifo_tie_break_witness:
  "distinct cand_abcd \<and> acyclic (dep_edges a_needs_b cand_abcd) \<and>
   resolve_event_modifiers_load_order a_needs_b cand_abcd = Inr (fifo_kahn a_needs_b cand_abcd) \<and>
   fifo_kahn a_needs_b cand_abcd = order_bcda \<and>
   kahn_order a_needs_b cand_abcd = Inr order_bcda \<and>
   prefix (filter (\<lambda>m. candidate_deps a_needs_b cand_abcd m = []) cand_abcd) order_bcda \<and>
   filter (\<lambda>m. candidate_deps a_needs_b cand_abcd m = []) cand_abcd = [ascii ''B'', ascii ''C'', ascii ''D''] \<and>
   kahn_loop [(ascii ''A'', [])] [ascii ''A''] [] [] = Inr [ascii ''A''] \<and>
   prefix ([] @ [ascii ''A'']) [ascii ''A'']"
proof -
  have d: "distinct cand_abcd" by simp
  have k: "kahn_order a_needs_b cand_abcd = Inr order_bcda"
    by (simp add: resolver_defs a_needs_b_def)
  have l: "kahn_loop [(ascii ''A'', [])] [ascii ''A''] [] [] = Inr [ascii ''A'']"
    by simp
  have f: "filter (\<lambda>m. candidate_deps a_needs_b cand_abcd m = []) cand_abcd = [ascii ''B'', ascii ''C'', ascii ''D'']"
    by (simp add: candidate_deps_def a_needs_b_def with_dependencies_def)
  note T = resolve_fifo_tie_break[of " cand_abcd" a_needs_b
      " cand_abcd" order_bcda
      "[(ascii ''A'', [])]" "[ascii ''A'']" "[]" "[]" "[ascii ''A'']"]
  from T d a_needs_b_acyclic
  have 1: "resolve_event_modifiers_load_order a_needs_b cand_abcd = Inr (fifo_kahn a_needs_b cand_abcd)"
    by blast
  from T k have 2: "prefix (filter (\<lambda>m. candidate_deps a_needs_b cand_abcd m = []) cand_abcd) order_bcda"
    by blast
  from T l have 3: "prefix ([] @ [ascii ''A'']) [ascii ''A'']"
    by blast
  from d a_needs_b_acyclic 1 a_needs_b_fifo k 2 f l 3 show ?thesis by blast
qed

text \<open>
  C5, as it is worded, fails on the candidates \<open>A, B, C, D\<close> of which \<open>A\<close> depends on
  \<open>B\<close>. Once \<open>B\<close> is placed, \<open>A\<close>, \<open>C\<close> and \<open>D\<close> have in-degree zero at the same time; in
  candidate order \<open>A\<close> would come next, but \<open>A\<close> has entered the queue behind \<open>C\<close> and
  \<open>D\<close>, and the resolver returns \<open>B, C, D, A\<close>.
\<close>

theorem candidate_order_tie_break_counterexample:
  "distinct cand_abcd \<and> acyclic (dep_edges a_needs_b cand_abcd) \<and>
   resolve_event_modifiers_load_order a_needs_b cand_abcd = Inr order_bcda \<and>
   candidate_order_kahn a_needs_b cand_abcd = order_bacd \<and>
   resolve_event_modifiers_load_order a_needs_b cand_abcd \<noteq> Inr (candidate_order_kahn a_needs_b cand_abcd)"
  using a_needs_b_acyclic a_needs_b_run a_needs_b_candidate_order by simp


text \<open>
  C10 (the result is a permutation). For a candidate list without repeated names the
  resolver returns a list that holds each candidate exactly once and nothing else: it
  is either the order the topological sort has produced, when that order has as many
  names as there are candidates, or the sorted candidate list. The empty candidate list
  yields the empty list.
\<close>

theorem resolve_permutation:
  "(distinct names \<longrightarrow>
      (\<exists>r order. resolve_event_modifiers_load_order L names = Inr r \<and>
         distinct r \<and> set r = set names \<and> length r = length names \<and>
         kahn_order L names = Inr order \<and>
         r = (if length order \<noteq> length names then sort names else order))) \<and>
   resolve_event_modifiers_load_order L [] = Inr []"
proof (intro conjI impI)
  assume d: "distinct names"
  from kahn_order_distinct[OF d, of L] obtain order where
    o: "kahn_order L names = Inr order" "distinct order" "set order \<subseteq> set names"
    by blast
  let ?r = "if length order \<noteq> length names then sort names else order"
  have run: "resolve_event_modifiers_load_order L names = Inr ?r"
    using o(1) kahn_order_Nil[of L] by (auto simp: resolve_event_modifiers_load_order_def)
  have full: "set order = set names" if "length order = length names"
  proof -
    from that o(2) d have "card (set order) = card (set names)" by (simp add: distinct_card)
    with o(3) show ?thesis by (simp add: card_subset_eq)
  qed
  have "distinct ?r \<and> set ?r = set names \<and> length ?r = length names"
    using d o(2) full by auto
  with run o(1) show "\<exists>r order. resolve_event_modifiers_load_order L names = Inr r \<and>
         distinct r \<and> set r = set names \<and> length r = length names \<and>
         kahn_order L names = Inr order \<and>
         r = (if length order \<noteq> length names then sort names else order)"
    by blast
next
  show "resolve_event_modifiers_load_order L [] = Inr []"
    by (simp add: resolve_event_modifiers_load_order_def)
qed

theorem resolve_permutation_witness:
  "distinct cand_yx \<and>
   (\<exists>r. resolve_event_modifiers_load_order cyclic cand_yx = Inr r \<and> distinct r \<and>
      set r = set cand_yx \<and> length r = length cand_yx) \<and>
   distinct cand_abcd \<and>
   (\<exists>r. resolve_event_modifiers_load_order a_needs_b cand_abcd = Inr r \<and> distinct r \<and>
      set r = set cand_abcd \<and> length r = length cand_abcd) \<and>
   resolve_event_modifiers_load_order a_needs_b cand_abcd = Inr order_bcda"
proof -
  have d1: "distinct cand_yx" by simp
  have d2: "distinct cand_abcd" by simp
  from resolve_permutation[of cand_yx cyclic] d1
  have 1: "\<exists>r. resolve_event_modifiers_load_order cyclic cand_yx = Inr r \<and> distinct r \<and>
      set r = set cand_yx \<and> length r = length cand_yx"
    by blast
  from resolve_permutation[of cand_abcd a_needs_b] d2
  have 2: "\<exists>r. resolve_event_modifiers_load_order a_needs_b cand_abcd = Inr r \<and> distinct r \<and>
      set r = set cand_abcd \<and> length r = length cand_abcd"
    by blast
  from d1 1 d2 2 a_needs_b_run show ?thesis by blast
qed

end
